theory Spec2Isabelle
  imports Main "HOL-Library.AList" "HOL-Library.Signed_Division"
begin

section \<open>Shared conventions of the embedding\<close>

text \<open>
  The classes of the library keep their nodes behind \<open>std::shared_ptr\<close> and reach them
  both through a \<open>std::unordered_map\<close> and through a doubly linked list between two
  sentinel nodes. The embedding keeps the same three ingredients apart:

  \<^item> a node is named by its address (a natural number handed out by an allocation
    counter, as \<open>std::make_shared\<close> hands out a pointer no live node has);
  \<^item> the contents of the allocated nodes live in a store, a map from addresses to node
    records; reading an address that holds no node is undefined behaviour;
  \<^item> a linked list is the sequence of the addresses linked strictly between its two
    sentinels, read from the head sentinel towards the tail sentinel; unlinking a node
    that is not linked dereferences a null or stale pointer and is undefined behaviour.

  Undefined behaviour of the C++ (a null dereference) is the result \<open>None\<close>; every
  operation that can reach one returns an \<open>option\<close>.

  A \<open>std::unordered_map\<close> is an association list with pairwise distinct keys. The order
  of the list stands for the iteration order of the container, which C++ leaves
  unspecified; no theorem below depends on it.
\<close>

type_synonym ('k, 'v) umap = "('k \<times> 'v) list"

definition um_find :: "'k \<Rightarrow> ('k, 'v) umap \<Rightarrow> 'v option" where
  "um_find k m = map_of m k"

definition um_assign :: "'k \<Rightarrow> 'v \<Rightarrow> ('k, 'v) umap \<Rightarrow> ('k, 'v) umap" where
  "um_assign k v m = AList.update k v m"

definition um_erase :: "'k \<Rightarrow> ('k, 'v) umap \<Rightarrow> ('k, 'v) umap" where
  "um_erase k m = AList.delete k m"

definition um_size :: "('k, 'v) umap \<Rightarrow> nat" where
  "um_size m = length m"

definition um_keys :: "('k, 'v) umap \<Rightarrow> 'k set" where
  "um_keys m = fst ` set m"

text \<open>
  An \<open>int\<close> compared with a \<open>size_t\<close> is first converted to \<open>size_t\<close> (64 bits on the
  platforms the library builds for): the value modulo \<open>2 ^ 64\<close>.
\<close>

definition size_t_of_int :: "int \<Rightarrow> nat" where
  "size_t_of_int i = nat (i mod 2 ^ 64)"

definition INT_MAX :: int where
  "INT_MAX = 2147483647"

definition INT8_MAX :: int where
  "INT8_MAX = 127"

section \<open>LRUCache (LRUCache.h)\<close>

record ('k, 'v) LRUNode =
  node_key :: 'k
  node_value :: 'v
  accessCount :: nat

text \<open>
  \<open>chain\<close> is the list between \<open>dummyHead_\<close> and \<open>dummyTail_\<close>: its first element is
  \<open>dummyHead_->next_\<close> (the least recently used node), its last element is
  \<open>dummyTail_->prev_\<close> (the most recently used one).
\<close>

record ('k, 'v) LRUCache =
  lru_capacity :: int
  lru_nodeMap :: "('k, nat) umap"
  store :: "nat \<rightharpoonup> ('k, 'v) LRUNode"
  fresh :: nat
  chain :: "nat list"

definition LRUCache_new :: "int \<Rightarrow> ('k, 'v) LRUCache" where
  "LRUCache_new capacity =
     \<lparr>lru_capacity = capacity, lru_nodeMap = [], store = Map.empty, fresh = 0, chain = []\<rparr>"

definition removeNode :: "nat \<Rightarrow> ('k, 'v) LRUCache \<Rightarrow> ('k, 'v) LRUCache option" where
  "removeNode node s =
     (if node \<in> set (chain s) then Some (s\<lparr>chain := remove1 node (chain s)\<rparr>) else None)"

definition insertNode :: "nat \<Rightarrow> ('k, 'v) LRUCache \<Rightarrow> ('k, 'v) LRUCache" where
  "insertNode node s = s\<lparr>chain := chain s @ [node]\<rparr>"

definition moveToMostRecent :: "nat \<Rightarrow> ('k, 'v) LRUCache \<Rightarrow> ('k, 'v) LRUCache option" where
  "moveToMostRecent node s = map_option (insertNode node) (removeNode node s)"

definition updateExistingNode ::
  "nat \<Rightarrow> 'v \<Rightarrow> ('k, 'v) LRUCache \<Rightarrow> ('k, 'v) LRUCache option" where
  "updateExistingNode node v s =
     (case store s node of
        None \<Rightarrow> None
      | Some n \<Rightarrow> moveToMostRecent node (s\<lparr>store := (store s)(node \<mapsto> n\<lparr>node_value := v\<rparr>)\<rparr>))"

text \<open>
  \<open>evictLeastRecent\<close> takes \<open>dummyHead_->next_\<close>. On an empty list that is
  \<open>dummyTail_\<close>, whose \<open>next_\<close> is null, and \<open>removeNode\<close> dereferences it.
\<close>

definition evictLeastRecent :: "('k, 'v) LRUCache \<Rightarrow> ('k, 'v) LRUCache option" where
  "evictLeastRecent s =
     (case chain s of
        [] \<Rightarrow> None
      | leastRecent # _ \<Rightarrow>
          (case removeNode leastRecent s of
             None \<Rightarrow> None
           | Some s1 \<Rightarrow>
               (case store s1 leastRecent of
                  None \<Rightarrow> None
                | Some n \<Rightarrow> Some (s1\<lparr>lru_nodeMap := um_erase (node_key n) (lru_nodeMap s1)\<rparr>))))"

definition addNewNode :: "'k \<Rightarrow> 'v \<Rightarrow> ('k, 'v) LRUCache \<Rightarrow> ('k, 'v) LRUCache option" where
  "addNewNode k v s =
     (case (if um_size (lru_nodeMap s) \<ge> size_t_of_int (lru_capacity s)
            then evictLeastRecent s else Some s) of
        None \<Rightarrow> None
      | Some s1 \<Rightarrow>
          (let newNode = fresh s1;
               s2 = s1\<lparr>store := (store s1)(newNode \<mapsto>
                          \<lparr>node_key = k, node_value = v, accessCount = 1\<rparr>),
                        fresh := Suc newNode\<rparr>;
               s3 = insertNode newNode s2
           in Some (s3\<lparr>lru_nodeMap := um_assign k newNode (lru_nodeMap s3)\<rparr>)))"

definition put :: "'k \<Rightarrow> 'v \<Rightarrow> ('k, 'v) LRUCache \<Rightarrow> ('k, 'v) LRUCache option" where
  "put k v s =
     (if lru_capacity s \<le> 0 then Some s
      else (case um_find k (lru_nodeMap s) of
              Some node \<Rightarrow> updateExistingNode node v s
            | None \<Rightarrow> addNewNode k v s))"

text \<open>
  \<open>bool get(Key, Value &)\<close>: the result \<open>Some v\<close> is \<open>true\<close> with \<open>v\<close> written to the
  out-parameter, \<open>None\<close> is \<open>false\<close> with the out-parameter untouched.
\<close>

definition get :: "'k \<Rightarrow> ('k, 'v) LRUCache \<Rightarrow> ('v option \<times> ('k, 'v) LRUCache) option" where
  "get k s =
     (case um_find k (lru_nodeMap s) of
        Some node \<Rightarrow>
          (case moveToMostRecent node s of
             None \<Rightarrow> None
           | Some s1 \<Rightarrow>
               (case store s1 node of
                  None \<Rightarrow> None
                | Some n \<Rightarrow> Some (Some (node_value n), s1)))
      | None \<Rightarrow> Some (None, s))"

text \<open>
  \<open>Value get(Key)\<close> starts from a value-initialised \<open>Value\<close>, here the parameter
  \<open>dflt\<close>, and returns it on a miss.
\<close>

definition get_value ::
  "'v \<Rightarrow> 'k \<Rightarrow> ('k, 'v) LRUCache \<Rightarrow> ('v \<times> ('k, 'v) LRUCache) option" where
  "get_value dflt k s =
     map_option (\<lambda>(r, s1). (case r of None \<Rightarrow> dflt | Some v \<Rightarrow> v, s1)) (get k s)"

definition remove :: "'k \<Rightarrow> ('k, 'v) LRUCache \<Rightarrow> ('k, 'v) LRUCache option" where
  "remove k s =
     (case um_find k (lru_nodeMap s) of
        Some node \<Rightarrow>
          map_option (\<lambda>s1. s1\<lparr>lru_nodeMap := um_erase k (lru_nodeMap s1)\<rparr>) (removeNode node s)
      | None \<Rightarrow> Some s)"

text \<open>
  A workload is a list of operations. \<open>lru_run\<close> executes it and records, in the order
  they happened, the keys touched by a put or by a successful get.
\<close>

datatype ('k, 'v) cache_op = Put 'k 'v | Get 'k

fun lru_run ::
  "('k, 'v) cache_op list \<Rightarrow> ('k, 'v) LRUCache \<Rightarrow> (('k, 'v) LRUCache \<times> 'k list) option" where
  "lru_run [] s = Some (s, [])"
| "lru_run (Put k v # ops) s =
     (case put k v s of
        None \<Rightarrow> None
      | Some s1 \<Rightarrow> map_option (\<lambda>(t, tr). (t, k # tr)) (lru_run ops s1))"
| "lru_run (Get k # ops) s =
     (case get k s of
        None \<Rightarrow> None
      | Some (r, s1) \<Rightarrow>
          map_option (\<lambda>(t, tr). (t, (if r = None then tr else k # tr))) (lru_run ops s1))"

text \<open>
  The last \<open>n\<close> distinct keys of a trace, most recent first: \<open>remdups\<close> keeps the last
  occurrence of every key.
\<close>

definition last_distinct :: "nat \<Rightarrow> 'k list \<Rightarrow> 'k list" where
  "last_distinct n tr = take n (rev (remdups tr))"

text \<open>
  Well-formedness of a cache state: the index and the list hold the same nodes, each
  under its own key, and every linked address is allocated.
\<close>

definition key_at :: "('k, 'v) LRUCache \<Rightarrow> nat \<Rightarrow> 'k" where
  "key_at s a = node_key (the (store s a))"

definition chain_keys :: "('k, 'v) LRUCache \<Rightarrow> 'k list" where
  "chain_keys s = map (key_at s) (chain s)"

definition lru_wf :: "('k, 'v) LRUCache \<Rightarrow> bool" where
  "lru_wf s \<longleftrightarrow>
     distinct (map fst (lru_nodeMap s)) \<and> distinct (chain s) \<and>
     (\<forall>a \<in> set (chain s). a < fresh s \<and> store s a \<noteq> None) \<and>
     set (lru_nodeMap s) = (\<lambda>a. (key_at s a, a)) ` set (chain s)"

definition lru_inv :: "int \<Rightarrow> 'k list \<Rightarrow> ('k, 'v) LRUCache \<Rightarrow> bool" where
  "lru_inv C tr s \<longleftrightarrow>
     lru_wf s \<and> lru_capacity s = C \<and> rev (chain_keys s) = last_distinct (nat C) tr"

text \<open>
  The same run, returning what each get reported.
\<close>

fun lru_results :: "('k, 'v) cache_op list \<Rightarrow> ('k, 'v) LRUCache \<Rightarrow> 'v option list option" where
  "lru_results [] s = Some []"
| "lru_results (Put k v # ops) s =
     (case put k v s of None \<Rightarrow> None | Some s1 \<Rightarrow> lru_results ops s1)"
| "lru_results (Get k # ops) s =
     (case get k s of
        None \<Rightarrow> None
      | Some (r, s1) \<Rightarrow> map_option (\<lambda>rs. r # rs) (lru_results ops s1))"

text \<open>
  The tail of \<open>addNewNode\<close>: allocate the node, link it before \<open>dummyTail_\<close>, index it.
\<close>

definition lru_alloc :: "'k \<Rightarrow> 'v \<Rightarrow> ('k, 'v) LRUCache \<Rightarrow> ('k, 'v) LRUCache" where
  "lru_alloc k v s1 =
     s1\<lparr>store := (store s1)(fresh s1 \<mapsto> \<lparr>node_key = k, node_value = v, accessCount = 1\<rparr>),
        fresh := Suc (fresh s1), chain := chain s1 @ [fresh s1],
        lru_nodeMap := um_assign k (fresh s1) (lru_nodeMap s1)\<rparr>"

section \<open>LRUKCache (LRUCache.h)\<close>

text \<open>
  \<open>LRUKCache\<close> derives from \<open>LRUCache<Key, Value>\<close> (the main cache, \<open>lruk_main\<close>) and owns
  a second \<open>LRUCache<Key, size_t>\<close> with the access counts (\<open>historyList_\<close>). Its \<open>put\<close>
  compares a value with the string literal \<open>""\<close>, so \<open>Value\<close> is a string type, whose
  value-initialised object is the empty string; the value-initialised \<open>size_t\<close> is 0.
  The count read from the history is narrowed to \<open>int\<close>, incremented, and converted back
  to \<open>size_t\<close> when it is stored.
\<close>

definition int_of_size_t :: "nat \<Rightarrow> int" where
  "int_of_size_t n = (int n + 2 ^ 31) mod 2 ^ 32 - 2 ^ 31"

record 'k LRUKCache =
  lruk_main :: "('k, string) LRUCache"
  historyList :: "('k, nat) LRUCache"
  k_threshold :: int

definition LRUKCache_new :: "int \<Rightarrow> int \<Rightarrow> int \<Rightarrow> 'k LRUKCache" where
  "LRUKCache_new capacity historyCapacity k =
     \<lparr>lruk_main = LRUCache_new capacity, historyList = LRUCache_new historyCapacity,
      k_threshold = k\<rparr>"

definition lruk_get :: "'k \<Rightarrow> 'k LRUKCache \<Rightarrow> (string \<times> 'k LRUKCache) option" where
  "lruk_get k c =
     (case get_value 0 k (historyList c) of
        None \<Rightarrow> None
      | Some (hc, h1) \<Rightarrow>
          (let historyCount = int_of_size_t hc + 1 in
           case put k (size_t_of_int historyCount) h1 of
             None \<Rightarrow> None
           | Some h2 \<Rightarrow>
               (case get_value [] k (lruk_main c) of
                  None \<Rightarrow> None
                | Some (v, m1) \<Rightarrow> Some (v, c\<lparr>lruk_main := m1, historyList := h2\<rparr>))))"

definition lruk_put :: "'k \<Rightarrow> string \<Rightarrow> 'k LRUKCache \<Rightarrow> 'k LRUKCache option" where
  "lruk_put k v c =
     (case get_value [] k (lruk_main c) of
        None \<Rightarrow> None
      | Some (v0, m1) \<Rightarrow>
          (case (if v0 \<noteq> [] then put k v m1 else Some m1) of
             None \<Rightarrow> None
           | Some m2 \<Rightarrow>
               (case get_value 0 k (historyList c) of
                  None \<Rightarrow> None
                | Some (hc, h1) \<Rightarrow>
                    (let historyCount = int_of_size_t hc + 1 in
                     case put k (size_t_of_int historyCount) h1 of
                       None \<Rightarrow> None
                     | Some h2 \<Rightarrow>
                         (if historyCount \<ge> k_threshold c
                          then (case remove k h2 of
                                  None \<Rightarrow> None
                                | Some h3 \<Rightarrow>
                                    (case put k v m2 of
                                       None \<Rightarrow> None
                                     | Some m3 \<Rightarrow>
                                         Some (c\<lparr>lruk_main := m3, historyList := h3\<rparr>)))
                          else Some (c\<lparr>lruk_main := m2, historyList := h2\<rparr>))))))"

fun lruk_run :: "('k, string) cache_op list \<Rightarrow> 'k LRUKCache \<Rightarrow> 'k LRUKCache option" where
  "lruk_run [] c = Some c"
| "lruk_run (Put k v # ops) c =
     (case lruk_put k v c of None \<Rightarrow> None | Some c1 \<Rightarrow> lruk_run ops c1)"
| "lruk_run (Get k # ops) c =
     (case lruk_get k c of None \<Rightarrow> None | Some (r, c1) \<Rightarrow> lruk_run ops c1)"

text \<open>
  What the main cache of an \<open>LRUKCache\<close> holds for a key after a workload: \<open>Some None\<close>
  when the workload ran and the key is absent from the main index, \<open>Some (Some v)\<close> when it
  is present with value \<open>v\<close>.
\<close>

definition main_lookup :: "'k \<Rightarrow> 'k LRUKCache \<Rightarrow> string option" where
  "main_lookup k c =
     (case um_find k (lru_nodeMap (lruk_main c)) of
        None \<Rightarrow> None
      | Some a \<Rightarrow> map_option node_value (store (lruk_main c) a))"

section \<open>LFUCache (LFUCache.h)\<close>

text \<open>
  \<open>FreqList::Node\<close>. The fields of the source are \<open>freq\<close>, \<open>key\<close> and \<open>value\<close>; the links
  \<open>pre\<close> and \<open>next\<close> are the position of the node in the list it is linked in.
\<close>

record ('k, 'v) Node =
  freq :: int
  key :: 'k
  val :: 'v

text \<open>
  A \<open>FreqList\<close> is the sequence of the nodes between its \<open>head_\<close> and \<open>tail_\<close>, oldest
  arrival first (\<open>addNode\<close> links a node before \<open>tail_\<close>). \<open>freqToFreqList_\<close> maps a
  frequency to its list. The five \<open>int\<close> counters are unbounded integers here: their
  overflow needs more than \<open>2 ^ 31\<close> operations on one cache.
\<close>

record ('k, 'v) LFUCache =
  lfu_capacity :: int
  minFreq :: int
  maxAverageNum :: int
  curAverageNum :: int
  curTotalNum :: int
  lfu_nodeMap :: "('k, nat) umap"
  freqToFreqList :: "(int, nat list) umap"
  lfu_store :: "nat \<rightharpoonup> ('k, 'v) Node"
  lfu_fresh :: nat

definition LFUCache_new :: "int \<Rightarrow> int \<Rightarrow> ('k, 'v) LFUCache" where
  "LFUCache_new capacity maxAverage =
     \<lparr>lfu_capacity = capacity, minFreq = INT8_MAX, maxAverageNum = maxAverage,
      curAverageNum = 0, curTotalNum = 0, lfu_nodeMap = [], freqToFreqList = [],
      lfu_store = Map.empty, lfu_fresh = 0\<rparr>"

text \<open>
  \<open>FreqList::getFirstNode\<close> returns \<open>head_->next\<close>: the first node, or the sentinel
  \<open>tail_\<close> (here \<open>None\<close>) when the list is empty.
\<close>

definition getFirstNode :: "nat list \<Rightarrow> nat option" where
  "getFirstNode b = (case b of [] \<Rightarrow> None | a # _ \<Rightarrow> Some a)"

definition isEmpty :: "nat list \<Rightarrow> bool" where
  "isEmpty b \<longleftrightarrow> b = []"

text \<open>
  \<open>FreqList::removeNode\<close> unlinks the node from the list it is linked in, whichever
  \<open>FreqList\<close> object the call goes through, and does nothing for a node that is not linked
  (its \<open>pre\<close> or \<open>next\<close> is null).
\<close>

definition fl_unlink :: "nat \<Rightarrow> (int, nat list) umap \<Rightarrow> (int, nat list) umap" where
  "fl_unlink a fl = map (\<lambda>(f, b). (f, removeAll a b)) fl"

text \<open>
  \<open>freqToFreqList_[freq]->removeNode(node)\<close>: \<open>operator[]\<close> on a frequency with no list
  yields a null \<open>FreqList *\<close>, and the call through it is undefined behaviour.
\<close>

definition removeFromFreqList :: "nat \<Rightarrow> ('k, 'v) LFUCache \<Rightarrow> ('k, 'v) LFUCache option" where
  "removeFromFreqList node s =
     (case lfu_store s node of
        None \<Rightarrow> None
      | Some n \<Rightarrow>
          (case um_find (freq n) (freqToFreqList s) of
             None \<Rightarrow> None
           | Some b \<Rightarrow> Some (s\<lparr>freqToFreqList := fl_unlink node (freqToFreqList s)\<rparr>)))"

definition addToFreqList :: "nat \<Rightarrow> ('k, 'v) LFUCache \<Rightarrow> ('k, 'v) LFUCache option" where
  "addToFreqList node s =
     (case lfu_store s node of
        None \<Rightarrow> None
      | Some n \<Rightarrow>
          (let fl = (if um_find (freq n) (freqToFreqList s) = None
                     then um_assign (freq n) [] (freqToFreqList s)
                     else freqToFreqList s)
           in case um_find (freq n) fl of
                None \<Rightarrow> None
              | Some b \<Rightarrow> Some (s\<lparr>freqToFreqList := um_assign (freq n) (b @ [node]) fl\<rparr>)))"

text \<open>
  \<open>curTotalNum_ / nodeMap_.size()\<close> divides an \<open>int\<close> by a \<open>size_t\<close>: the \<open>int\<close> is converted
  to \<open>size_t\<close>, the quotient is unsigned and is narrowed back to \<open>int\<close>.
\<close>

definition lfu_average :: "int \<Rightarrow> nat \<Rightarrow> int" where
  "lfu_average t n = int_of_size_t (size_t_of_int t div n)"

definition updateMinFreq :: "('k, 'v) LFUCache \<Rightarrow> ('k, 'v) LFUCache" where
  "updateMinFreq s =
     (let m = foldl (\<lambda>m (f, b). if \<not> isEmpty b then min m f else m) INT8_MAX
                (freqToFreqList s)
      in s\<lparr>minFreq := (if m = INT8_MAX then 1 else m)\<rparr>)"

text \<open>
  The body of the loop of \<open>handleOverMaxAverageNum\<close> for one node. \<open>maxAverageNum_ / 2\<close>
  is C++ integer division, which truncates towards zero: \<open>sdiv\<close>.
\<close>

definition ageNode :: "nat \<Rightarrow> ('k, 'v) LFUCache \<Rightarrow> ('k, 'v) LFUCache option" where
  "ageNode node s =
     (case removeFromFreqList node s of
        None \<Rightarrow> None
      | Some s1 \<Rightarrow>
          (case lfu_store s1 node of
             None \<Rightarrow> None
           | Some n \<Rightarrow>
               (let f1 = freq n - maxAverageNum s1 sdiv 2;
                    f2 = (if f1 < 1 then 1 else f1)
                in addToFreqList node
                     (s1\<lparr>lfu_store := (lfu_store s1)(node \<mapsto> n\<lparr>freq := f2\<rparr>)\<rparr>))))"

fun ageAll :: "('k \<times> nat) list \<Rightarrow> ('k, 'v) LFUCache \<Rightarrow> ('k, 'v) LFUCache option" where
  "ageAll [] s = Some s"
| "ageAll ((k, node) # m) s =
     (case ageNode node s of None \<Rightarrow> None | Some s1 \<Rightarrow> ageAll m s1)"

definition handleOverMaxAverageNum :: "('k, 'v) LFUCache \<Rightarrow> ('k, 'v) LFUCache option" where
  "handleOverMaxAverageNum s =
     (if lfu_nodeMap s = [] then Some s
      else map_option updateMinFreq (ageAll (lfu_nodeMap s) s))"

definition addFreqNum :: "('k, 'v) LFUCache \<Rightarrow> ('k, 'v) LFUCache option" where
  "addFreqNum s =
     (let s1 = s\<lparr>curTotalNum := curTotalNum s + 1\<rparr>;
          s2 = s1\<lparr>curAverageNum :=
                    (if lfu_nodeMap s1 = [] then 0
                     else lfu_average (curTotalNum s1) (um_size (lfu_nodeMap s1)))\<rparr>
      in if curAverageNum s2 > maxAverageNum s2 then handleOverMaxAverageNum s2 else Some s2)"

definition decreaseFreqNum :: "int \<Rightarrow> ('k, 'v) LFUCache \<Rightarrow> ('k, 'v) LFUCache" where
  "decreaseFreqNum num s =
     (let s1 = s\<lparr>curTotalNum := curTotalNum s - num\<rparr>
      in s1\<lparr>curAverageNum :=
               (if lfu_nodeMap s1 = [] then 0
                else lfu_average (curTotalNum s1) (um_size (lfu_nodeMap s1)))\<rparr>)"

text \<open>
  The frequency bump of a hit, up to the adjustment of \<open>minFreq_\<close>: everything
  \<open>getInternal\<close> does before it calls \<open>addFreqNum\<close>. The test
  \<open>node->freq - 1 == minFreq_ && freqToFreqList_[node->freq - 1]->isEmpty()\<close> looks the
  old list up only when the first conjunct holds.
\<close>

definition bumpFreq :: "nat \<Rightarrow> ('k, 'v) LFUCache \<Rightarrow> ('k, 'v) LFUCache option" where
  "bumpFreq node s =
     (case removeFromFreqList node s of
        None \<Rightarrow> None
      | Some s1 \<Rightarrow>
          (case lfu_store s1 node of
             None \<Rightarrow> None
           | Some n \<Rightarrow>
               (case addToFreqList node
                       (s1\<lparr>lfu_store := (lfu_store s1)(node \<mapsto> n\<lparr>freq := freq n + 1\<rparr>)\<rparr>) of
                  None \<Rightarrow> None
                | Some s3 \<Rightarrow>
                    (if freq n + 1 - 1 = minFreq s3
                     then (case um_find (freq n + 1 - 1) (freqToFreqList s3) of
                             None \<Rightarrow> None
                           | Some b \<Rightarrow>
                               Some (if isEmpty b then s3\<lparr>minFreq := minFreq s3 + 1\<rparr> else s3))
                     else Some s3))))"

definition getInternal ::
  "nat \<Rightarrow> ('k, 'v) LFUCache \<Rightarrow> ('v \<times> ('k, 'v) LFUCache) option" where
  "getInternal node s =
     (case lfu_store s node of
        None \<Rightarrow> None
      | Some n \<Rightarrow>
          (case bumpFreq node s of
             None \<Rightarrow> None
           | Some s4 \<Rightarrow> map_option (\<lambda>s5. (val n, s5)) (addFreqNum s4)))"

text \<open>
  \<open>kickOut\<close> takes the first node of the list of \<open>minFreq_\<close>. When that list is empty the
  node is the sentinel \<open>tail_\<close>, a value-initialised \<open>Node\<close>: its \<open>freq\<close> is 1, its \<open>key\<close> is
  the value-initialised key \<open>Key()\<close> (the parameter \<open>dk\<close>), and \<open>removeNode\<close> returns at
  once because \<open>tail_->next\<close> is null; \<open>kickOut\<close> then erases \<open>Key()\<close> from the index and
  deducts 1 from \<open>curTotalNum_\<close>.
\<close>

definition kickOut :: "'k \<Rightarrow> ('k, 'v) LFUCache \<Rightarrow> ('k, 'v) LFUCache option" where
  "kickOut dk s =
     (case um_find (minFreq s) (freqToFreqList s) of
        None \<Rightarrow> None
      | Some b \<Rightarrow>
          (case getFirstNode b of
             None \<Rightarrow>
               (case um_find 1 (freqToFreqList s) of
                  None \<Rightarrow> None
                | Some b1 \<Rightarrow>
                    Some (decreaseFreqNum 1 (s\<lparr>lfu_nodeMap := um_erase dk (lfu_nodeMap s)\<rparr>)))
           | Some node \<Rightarrow>
               (case removeFromFreqList node s of
                  None \<Rightarrow> None
                | Some s1 \<Rightarrow>
                    (case lfu_store s1 node of
                       None \<Rightarrow> None
                     | Some n \<Rightarrow>
                         Some (decreaseFreqNum (freq n)
                                 (s1\<lparr>lfu_nodeMap := um_erase (key n) (lfu_nodeMap s1)\<rparr>))))))"

definition putInternal :: "'k \<Rightarrow> 'k \<Rightarrow> 'v \<Rightarrow> ('k, 'v) LFUCache \<Rightarrow> ('k, 'v) LFUCache option" where
  "putInternal dk k v s =
     (case (if um_size (lfu_nodeMap s) = size_t_of_int (lfu_capacity s)
            then kickOut dk s else Some s) of
        None \<Rightarrow> None
      | Some s1 \<Rightarrow>
          (let node = lfu_fresh s1;
               s2 = s1\<lparr>lfu_store := (lfu_store s1)(node \<mapsto> \<lparr>freq = 1, key = k, val = v\<rparr>),
                        lfu_fresh := Suc node,
                        lfu_nodeMap := um_assign k node (lfu_nodeMap s1)\<rparr>
           in case addToFreqList node s2 of
                None \<Rightarrow> None
              | Some s3 \<Rightarrow>
                  (case addFreqNum s3 of
                     None \<Rightarrow> None
                   | Some s4 \<Rightarrow> Some (s4\<lparr>minFreq := min (minFreq s4) 1\<rparr>))))"

definition lfu_put :: "'k \<Rightarrow> 'k \<Rightarrow> 'v \<Rightarrow> ('k, 'v) LFUCache \<Rightarrow> ('k, 'v) LFUCache option" where
  "lfu_put dk k v s =
     (if lfu_capacity s = 0 then Some s
      else (case um_find k (lfu_nodeMap s) of
              Some node \<Rightarrow>
                (case lfu_store s node of
                   None \<Rightarrow> None
                 | Some n \<Rightarrow>
                     map_option snd
                       (getInternal node
                          (s\<lparr>lfu_store := (lfu_store s)(node \<mapsto> n\<lparr>val := v\<rparr>)\<rparr>)))
            | None \<Rightarrow> putInternal dk k v s))"

definition lfu_get :: "'k \<Rightarrow> ('k, 'v) LFUCache \<Rightarrow> ('v option \<times> ('k, 'v) LFUCache) option" where
  "lfu_get k s =
     (case um_find k (lfu_nodeMap s) of
        Some node \<Rightarrow> map_option (\<lambda>(v, s1). (Some v, s1)) (getInternal node s)
      | None \<Rightarrow> Some (None, s))"

definition purge :: "('k, 'v) LFUCache \<Rightarrow> ('k, 'v) LFUCache" where
  "purge s = s\<lparr>lfu_nodeMap := [], freqToFreqList := []\<rparr>"

text \<open>
  Workloads on an \<open>LFUCache\<close>: the final state, and what each get reported.
\<close>

fun lfu_run :: "'k \<Rightarrow> ('k, 'v) cache_op list \<Rightarrow> ('k, 'v) LFUCache \<Rightarrow> ('k, 'v) LFUCache option" where
  "lfu_run dk [] s = Some s"
| "lfu_run dk (Put k v # ops) s =
     (case lfu_put dk k v s of None \<Rightarrow> None | Some s1 \<Rightarrow> lfu_run dk ops s1)"
| "lfu_run dk (Get k # ops) s =
     (case lfu_get k s of None \<Rightarrow> None | Some (r, s1) \<Rightarrow> lfu_run dk ops s1)"

text \<open>
  The frequency stored for a key, and the index as a list of keys with their frequencies.
\<close>

definition freq_of :: "('k, 'v) LFUCache \<Rightarrow> 'k \<Rightarrow> int option" where
  "freq_of s k =
     (case um_find k (lfu_nodeMap s) of
        None \<Rightarrow> None
      | Some a \<Rightarrow> map_option freq (lfu_store s a))"

text \<open>
  Well-formedness of an \<open>LFUCache\<close> state. In \<open>lfu_core X s\<close> the nodes of \<open>X\<close> are the ones
  an operation has unlinked and not yet linked again; outside \<open>X\<close> every indexed node is
  allocated, carries the key it is indexed under and a frequency of at least 1, and is
  linked in the list of its own frequency; every linked node is allocated and its
  frequency is the one of the list it is linked in. \<open>lfu_wf\<close> adds what keeps \<open>kickOut\<close>
  away from a missing list, and the range of the \<open>int\<close> capacity.
\<close>

definition INT_MIN :: int where
  "INT_MIN = - 2147483648"

definition lfu_core :: "nat set \<Rightarrow> ('k, 'v) LFUCache \<Rightarrow> bool" where
  "lfu_core X s \<longleftrightarrow>
     distinct (map fst (lfu_nodeMap s)) \<and> distinct (map snd (lfu_nodeMap s)) \<and>
     distinct (map fst (freqToFreqList s)) \<and>
     (\<forall>(k, a) \<in> set (lfu_nodeMap s).
        a < lfu_fresh s \<and>
        (\<exists>n. lfu_store s a = Some n \<and> key n = k \<and>
             (a \<notin> X \<longrightarrow> 1 \<le> freq n \<and>
                (\<exists>b. (freq n, b) \<in> set (freqToFreqList s) \<and> a \<in> set b)))) \<and>
     (\<forall>(f, b) \<in> set (freqToFreqList s).
        1 \<le> f \<and> distinct b \<and>
        (\<forall>a \<in> set b. a \<notin> X \<and> a < lfu_fresh s \<and>
           (\<exists>n. lfu_store s a = Some n \<and> freq n = f)))"

definition lfu_wf :: "('k, 'v) LFUCache \<Rightarrow> bool" where
  "lfu_wf s \<longleftrightarrow>
     lfu_core {} s \<and> 1 \<le> minFreq s \<and>
     (lfu_nodeMap s \<noteq> [] \<longrightarrow>
        minFreq s \<in> fst ` set (freqToFreqList s) \<and> 1 \<in> fst ` set (freqToFreqList s)) \<and>
     INT_MIN \<le> lfu_capacity s \<and> lfu_capacity s \<le> INT_MAX"

text \<open>
  Auxiliary states and relations used to describe what the operations do.
\<close>

text \<open>The list map after \<open>addToFreqList\<close> has linked a node of frequency \<open>f\<close>.\<close>

definition fl_link :: "int \<Rightarrow> nat \<Rightarrow> (int, nat list) umap \<Rightarrow> (int, nat list) umap" where
  "fl_link f a fl =
     AList.update f ((case map_of fl f of None \<Rightarrow> [] | Some b \<Rightarrow> b) @ [a]) fl"

definition relink :: "nat \<Rightarrow> int \<Rightarrow> ('k, 'v) LFUCache \<Rightarrow> ('k, 'v) LFUCache" where
  "relink a f s =
     (case lfu_store s a of
        None \<Rightarrow> s
      | Some n \<Rightarrow>
          s\<lparr>freqToFreqList := fl_link f a (fl_unlink a (freqToFreqList s)),
            lfu_store := (lfu_store s)(a \<mapsto> n\<lparr>freq := f\<rparr>)\<rparr>)"

definition aged :: "int \<Rightarrow> int \<Rightarrow> int" where
  "aged d f = max 1 (f - d)"

definition lfu_frame :: "('k, 'v) LFUCache \<Rightarrow> ('k, 'v) LFUCache \<Rightarrow> bool" where
  "lfu_frame s s' \<longleftrightarrow>
     lfu_nodeMap s' = lfu_nodeMap s \<and> lfu_capacity s' = lfu_capacity s \<and>
     minFreq s' = minFreq s \<and> maxAverageNum s' = maxAverageNum s \<and>
     curAverageNum s' = curAverageNum s \<and> curTotalNum s' = curTotalNum s \<and>
     lfu_fresh s' = lfu_fresh s"

definition nonempty_freqs :: "('k, 'v) LFUCache \<Rightarrow> int set" where
  "nonempty_freqs s = {f. \<exists>b. (f, b) \<in> set (freqToFreqList s) \<and> b \<noteq> []}"

definition same_payload :: "('k, 'v) LFUCache \<Rightarrow> ('k, 'v) LFUCache \<Rightarrow> bool" where
  "same_payload s s' \<longleftrightarrow>
     (\<forall>a. map_option (\<lambda>n. (key n, val n)) (lfu_store s' a)
          = map_option (\<lambda>n. (key n, val n)) (lfu_store s a))"

text \<open>The state after the frequency bump of a hit on node \<open>a\<close>.\<close>

definition bumped :: "nat \<Rightarrow> ('k, 'v) LFUCache \<Rightarrow> ('k, 'v) LFUCache" where
  "bumped a s =
     (case lfu_store s a of
        None \<Rightarrow> s
      | Some n \<Rightarrow>
          (let s3 = relink a (freq n + 1) s
           in if freq n = minFreq s \<and> um_find (freq n) (freqToFreqList s3) = Some []
              then s3\<lparr>minFreq := minFreq s + 1\<rparr> else s3))"

text \<open>The allocation step of \<open>putInternal\<close>.\<close>

definition lfu_alloc :: "'k \<Rightarrow> 'v \<Rightarrow> ('k, 'v) LFUCache \<Rightarrow> ('k, 'v) LFUCache" where
  "lfu_alloc k v s1 =
     s1\<lparr>lfu_store := (lfu_store s1)(lfu_fresh s1 \<mapsto> \<lparr>freq = 1, key = k, val = v\<rparr>),
        lfu_fresh := Suc (lfu_fresh s1),
        lfu_nodeMap := um_assign k (lfu_fresh s1) (lfu_nodeMap s1)\<rparr>"

subsection \<open>States reached in the LFU scenarios\<close>

definition empties :: "nat \<Rightarrow> (int, nat list) umap" where
  "empties m = map (\<lambda>i. (int i + 1, [])) [0..<m]"

definition hot_state :: "'k \<Rightarrow> 'v \<Rightarrow> nat \<Rightarrow> ('k, 'v) LFUCache" where
  "hot_state k v n =
     \<lparr>lfu_capacity = 1, minFreq = int n + 1, maxAverageNum = 252, curAverageNum = int n + 1,
      curTotalNum = int n + 1, lfu_nodeMap = [(k, 0)],
      freqToFreqList = empties n @ [(int n + 1, [0])],
      lfu_store = [0 \<mapsto> \<lparr>freq = int n + 1, key = k, val = v\<rparr>], lfu_fresh = 1\<rparr>"

definition aged_state :: "'k \<Rightarrow> 'v \<Rightarrow> ('k, 'v) LFUCache" where
  "aged_state k v =
     \<lparr>lfu_capacity = 1, minFreq = 1, maxAverageNum = 252, curAverageNum = 253,
      curTotalNum = 253, lfu_nodeMap = [(k, 0)],
      freqToFreqList = fl_link 127 0 (empties 253),
      lfu_store = [0 \<mapsto> \<lparr>freq = 127, key = k, val = v\<rparr>], lfu_fresh = 1\<rparr>"


definition warm_state :: "(string, int) LFUCache" where
  "warm_state =
     \<lparr>lfu_capacity = 1, minFreq = 4, maxAverageNum = 2, curAverageNum = 2, curTotalNum = 2,
      lfu_nodeMap = [(''A'', 0)],
      freqToFreqList = [(1, []), (2, []), (3, []), (4, [0])],
      lfu_store = [0 \<mapsto> \<lparr>freq = 4, key = ''A'', val = 7\<rparr>], lfu_fresh = 1\<rparr>"

section \<open>ARC: the LRU half (\<^verbatim>\<open>ARCCache/ARCLRUPart.h\<close>)\<close>

text \<open>
  An \<^verbatim>\<open>ARCNode\<close> carries key, value and a \<^verbatim>\<open>size_t\<close> access count. Nodes live in a store
  under addresses, as for the LRU cache. The two sentinel pairs delimit two lists: the
  nodes between \<^verbatim>\<open>mainHead_\<close> and \<^verbatim>\<open>mainTail_\<close> (front first) and those between
  \<^verbatim>\<open>ghostHead_\<close> and \<^verbatim>\<open>ghostTail_\<close>. \<^verbatim>\<open>ghostCapacity_\<close> is declared but never assigned by
  the constructor, so its value is a parameter of the construction.
\<close>

record ('k, 'v) ARCNode =
  arc_key :: 'k
  arc_value :: 'v
  arc_accessCount :: nat

record ('k, 'v) ARCLRUPart =
  arc_capacity :: nat
  ghostCapacity :: nat
  transformThreshold :: nat
  mainCache :: "('k, nat) umap"
  ghostCache :: "('k, nat) umap"
  arc_store :: "nat \<rightharpoonup> ('k, 'v) ARCNode"
  arc_fresh :: nat
  mainList :: "nat list"
  ghostList :: "nat list"

definition ARCLRUPart_new :: "nat \<Rightarrow> nat \<Rightarrow> nat \<Rightarrow> ('k, 'v) ARCLRUPart" where
  "ARCLRUPart_new capacity ghostCap threshold =
     \<lparr>arc_capacity = capacity, ghostCapacity = ghostCap, transformThreshold = threshold,
      mainCache = [], ghostCache = [], arc_store = Map.empty, arc_fresh = 0,
      mainList = [], ghostList = []\<rparr>"

text \<open>
  \<^verbatim>\<open>node->prev_->next_ = node->next_; node->next_->prev_ = node->prev_;\<close> takes the node out
  of whichever list it is linked in. A node that is linked nowhere has no neighbours to
  update; that case is \<open>None\<close>.
\<close>

definition arc_unlink :: "nat \<Rightarrow> ('k, 'v) ARCLRUPart \<Rightarrow> ('k, 'v) ARCLRUPart option" where
  "arc_unlink a s =
     (if a \<in> set (mainList s) then Some (s\<lparr>mainList := remove1 a (mainList s)\<rparr>)
      else if a \<in> set (ghostList s) then Some (s\<lparr>ghostList := remove1 a (ghostList s)\<rparr>)
      else None)"

definition removeFromMain :: "nat \<Rightarrow> ('k, 'v) ARCLRUPart \<Rightarrow> ('k, 'v) ARCLRUPart option" where
  "removeFromMain a s = arc_unlink a s"

definition removeFromGhost :: "nat \<Rightarrow> ('k, 'v) ARCLRUPart \<Rightarrow> ('k, 'v) ARCLRUPart option" where
  "removeFromGhost a s = arc_unlink a s"

definition addToFront :: "nat \<Rightarrow> ('k, 'v) ARCLRUPart \<Rightarrow> ('k, 'v) ARCLRUPart" where
  "addToFront a s = s\<lparr>mainList := a # mainList s\<rparr>"

definition moveToFront :: "nat \<Rightarrow> ('k, 'v) ARCLRUPart \<Rightarrow> ('k, 'v) ARCLRUPart option" where
  "moveToFront a s = map_option (addToFront a) (arc_unlink a s)"

text \<open>
  \<^verbatim>\<open>addToGhost\<close> resets the access count, links the node behind \<^verbatim>\<open>mainHead_\<close> (the source
  names \<^verbatim>\<open>mainHead_\<close> here, not \<^verbatim>\<open>ghostHead_\<close>) and records it in \<^verbatim>\<open>ghostCache_\<close>.
\<close>

definition addToGhost :: "nat \<Rightarrow> ('k, 'v) ARCLRUPart \<Rightarrow> ('k, 'v) ARCLRUPart option" where
  "addToGhost a s =
     (case arc_store s a of
        None \<Rightarrow> None
      | Some n \<Rightarrow>
          Some (s\<lparr>arc_store := (arc_store s)(a \<mapsto> n\<lparr>arc_accessCount := 1\<rparr>),
                  mainList := a # mainList s,
                  ghostCache := um_assign (arc_key n) a (ghostCache s)\<rparr>))"

definition removeOldestGhost :: "('k, 'v) ARCLRUPart \<Rightarrow> ('k, 'v) ARCLRUPart option" where
  "removeOldestGhost s =
     (if ghostList s = [] then Some s
      else let a = last (ghostList s) in
        case removeFromGhost a s of
          None \<Rightarrow> None
        | Some s1 \<Rightarrow>
            (case arc_store s1 a of
               None \<Rightarrow> None
             | Some n \<Rightarrow> Some (s1\<lparr>ghostCache := um_erase (arc_key n) (ghostCache s1)\<rparr>)))"

definition arc_evictLeastRecent :: "('k, 'v) ARCLRUPart \<Rightarrow> ('k, 'v) ARCLRUPart option" where
  "arc_evictLeastRecent s =
     (if mainList s = [] then Some s
      else let a = last (mainList s) in
        case removeFromMain a s of
          None \<Rightarrow> None
        | Some s1 \<Rightarrow>
            (case (if ghostCapacity s1 \<le> um_size (ghostCache s1) then removeOldestGhost s1
                   else Some s1) of
               None \<Rightarrow> None
             | Some s2 \<Rightarrow>
                 (case addToGhost a s2 of
                    None \<Rightarrow> None
                  | Some s3 \<Rightarrow>
                      (case arc_store s3 a of
                         None \<Rightarrow> None
                       | Some n \<Rightarrow>
                           Some (s3\<lparr>mainCache := um_erase (arc_key n) (mainCache s3)\<rparr>)))))"

definition arc_updateExistingNode ::
  "nat \<Rightarrow> 'v \<Rightarrow> ('k, 'v) ARCLRUPart \<Rightarrow> (bool \<times> ('k, 'v) ARCLRUPart) option" where
  "arc_updateExistingNode a v s =
     (case arc_store s a of
        None \<Rightarrow> None
      | Some n \<Rightarrow>
          map_option (Pair True)
            (moveToFront a (s\<lparr>arc_store := (arc_store s)(a \<mapsto> n\<lparr>arc_value := v\<rparr>)\<rparr>)))"

definition arc_addNewNode ::
  "'k \<Rightarrow> 'v \<Rightarrow> ('k, 'v) ARCLRUPart \<Rightarrow> (bool \<times> ('k, 'v) ARCLRUPart) option" where
  "arc_addNewNode k v s =
     (case (if arc_capacity s \<le> um_size (mainCache s) then arc_evictLeastRecent s
            else Some s) of
        None \<Rightarrow> None
      | Some s1 \<Rightarrow>
          let a = arc_fresh s1;
              s2 = s1\<lparr>arc_store := (arc_store s1)
                         (a \<mapsto> \<lparr>arc_key = k, arc_value = v, arc_accessCount = 1\<rparr>),
                      arc_fresh := a + 1,
                      mainCache := um_assign k a (mainCache s1)\<rparr>
          in Some (True, addToFront a s2))"

definition updateNodeAccess ::
  "nat \<Rightarrow> ('k, 'v) ARCLRUPart \<Rightarrow> (bool \<times> ('k, 'v) ARCLRUPart) option" where
  "updateNodeAccess a s =
     (case moveToFront a s of
        None \<Rightarrow> None
      | Some s1 \<Rightarrow>
          (case arc_store s1 a of
             None \<Rightarrow> None
           | Some n \<Rightarrow>
               let c = (arc_accessCount n + 1) mod 2 ^ 64 in
               Some (transformThreshold s1 \<le> c,
                     s1\<lparr>arc_store := (arc_store s1)(a \<mapsto> n\<lparr>arc_accessCount := c\<rparr>)\<rparr>)))"

definition arc_put ::
  "'k \<Rightarrow> 'v \<Rightarrow> ('k, 'v) ARCLRUPart \<Rightarrow> (bool \<times> ('k, 'v) ARCLRUPart) option" where
  "arc_put k v s =
     (if arc_capacity s = 0 then Some (False, s)
      else case um_find k (mainCache s) of
             Some a \<Rightarrow> arc_updateExistingNode a v s
           | None \<Rightarrow> arc_addNewNode k v s)"

text \<open>
  \<^verbatim>\<open>get(key, value, shouldTransform)\<close>: the result is the value on a hit (\<open>None\<close> on a miss,
  where the two out-parameters are left as they were), the flag, and the new state.
\<close>

definition arc_get ::
  "'k \<Rightarrow> ('k, 'v) ARCLRUPart \<Rightarrow> ('v option \<times> bool \<times> ('k, 'v) ARCLRUPart) option" where
  "arc_get k s =
     (case um_find k (mainCache s) of
        None \<Rightarrow> Some (None, False, s)
      | Some a \<Rightarrow>
          (case updateNodeAccess a s of
             None \<Rightarrow> None
           | Some (st, s1) \<Rightarrow>
               (case arc_store s1 a of
                  None \<Rightarrow> None
                | Some n \<Rightarrow> Some (Some (arc_value n), st, s1))))"

definition checkGhost :: "'k \<Rightarrow> ('k, 'v) ARCLRUPart \<Rightarrow> (bool \<times> ('k, 'v) ARCLRUPart) option" where
  "checkGhost k s =
     (case um_find k (ghostCache s) of
        None \<Rightarrow> Some (False, s)
      | Some a \<Rightarrow>
          (case removeFromGhost a s of
             None \<Rightarrow> None
           | Some s1 \<Rightarrow> Some (True, s1\<lparr>ghostCache := um_erase k (ghostCache s1)\<rparr>)))"

definition increaseCapacity :: "('k, 'v) ARCLRUPart \<Rightarrow> ('k, 'v) ARCLRUPart" where
  "increaseCapacity s = s\<lparr>arc_capacity := (arc_capacity s + 1) mod 2 ^ 64\<rparr>"

definition decreaseCapacity :: "('k, 'v) ARCLRUPart \<Rightarrow> (bool \<times> ('k, 'v) ARCLRUPart) option" where
  "decreaseCapacity s =
     (if arc_capacity s \<le> 0 then Some (False, s)
      else case (if um_size (mainCache s) = arc_capacity s then arc_evictLeastRecent s
                 else Some s) of
             None \<Rightarrow> None
           | Some s1 \<Rightarrow> Some (True, s1\<lparr>arc_capacity := arc_capacity s1 - 1\<rparr>))"

text \<open>
  Well-formedness of the LRU half as the source maintains it: every node that one of the
  two maps refers to is linked in the main list and carries the key it is filed under, no
  node is referred to by both maps, and nothing is ever linked in the ghost list.
\<close>

definition arc_wf :: "('k, 'v) ARCLRUPart \<Rightarrow> bool" where
  "arc_wf s \<longleftrightarrow>
     distinct (mainList s) \<and> ghostList s = [] \<and>
     distinct (map fst (mainCache s)) \<and> distinct (map fst (ghostCache s)) \<and>
     (\<forall>a. a \<in> set (mainList s) \<longrightarrow> a < arc_fresh s \<and> arc_store s a \<noteq> None) \<and>
     (\<forall>k a. (k, a) \<in> set (mainCache s) \<longrightarrow>
        a \<in> set (mainList s) \<and> (\<exists>n. arc_store s a = Some n \<and> arc_key n = k)) \<and>
     (\<forall>k a. (k, a) \<in> set (ghostCache s) \<longrightarrow>
        a \<in> set (mainList s) \<and> (\<exists>n. arc_store s a = Some n \<and> arc_key n = k)) \<and>
     (\<forall>k a k'. (k, a) \<in> set (mainCache s) \<longrightarrow> (k', a) \<notin> set (ghostCache s))"

section \<open>ARC: the LFU half and the cache (\<^verbatim>\<open>ARCCache/ARCCache.h\<close>)\<close>

text \<open>
  Modelled from the spec: \<^verbatim>\<open>ARCCache/ARCLFUPart.h\<close> is included by \<^verbatim>\<open>ARCCache.h\<close> but is not
  among the sources. The half \<open>T2 / B2\<close> is described as a real list that behaves as an LRU
  list with an access counter, with a bounded ghost list of keys. The record keeps the
  capacity, the ghost capacity, the real entries (most recent first) and the ghost keys
  (newest first).
\<close>

record ('k, 'v) ARCLFUPart =
  t2_capacity :: nat
  t2_ghostCapacity :: nat
  t2_real :: "('k \<times> 'v \<times> nat) list"
  t2_ghost :: "'k list"

text \<open>
  Modelled from the spec: the constructor of the missing \<^verbatim>\<open>ARCLFUPart\<close>. It keeps the capacity
  it is given, as the constructor of the LRU half does; the ghost capacity is initialised
  to the same number (\<open>a common choice: equal to C\<close>).
\<close>

definition ARCLFUPart_new :: "nat \<Rightarrow> nat \<Rightarrow> ('k, 'v) ARCLFUPart" where
  "ARCLFUPart_new capacity threshold =
     \<lparr>t2_capacity = capacity, t2_ghostCapacity = capacity, t2_real = [], t2_ghost = []\<rparr>"

text \<open>
  Modelled from the spec: eviction in the missing LFU half. \<open>When a real list overflows,
  evict its LRU entry, place its key into the corresponding ghost list (evicting the oldest
  ghost if the ghost list is full)\<close>.
\<close>

definition t2_evict :: "('k, 'v) ARCLFUPart \<Rightarrow> ('k, 'v) ARCLFUPart" where
  "t2_evict s =
     (if t2_real s = [] then s
      else let k = fst (last (t2_real s));
               g = (if t2_ghostCapacity s \<le> length (t2_ghost s) then butlast (t2_ghost s)
                    else t2_ghost s)
           in s\<lparr>t2_real := butlast (t2_real s), t2_ghost := k # g\<rparr>)"

text \<open>
  Modelled from the spec: \<^verbatim>\<open>put\<close> of the missing LFU half: refused at capacity 0, an
  overwrite of a present key moves it to the most recent position, a new key evicts first
  when the real list is full.
\<close>

definition t2_put :: "'k \<Rightarrow> 'v \<Rightarrow> ('k, 'v) ARCLFUPart \<Rightarrow> bool \<times> ('k, 'v) ARCLFUPart" where
  "t2_put k v s =
     (if t2_capacity s = 0 then (False, s)
      else case map_of (t2_real s) k of
             Some (w, c) \<Rightarrow>
               (True, s\<lparr>t2_real := (k, v, c) # AList.delete k (t2_real s)\<rparr>)
           | None \<Rightarrow>
               let s1 = (if t2_capacity s \<le> length (t2_real s) then t2_evict s else s)
               in (True, s1\<lparr>t2_real := (k, v, 1) # t2_real s1\<rparr>))"

text \<open>
  Modelled from the spec: \<^verbatim>\<open>get\<close> of the missing LFU half: a hit moves the entry to the
  most recent position and counts the access.
\<close>

definition t2_get :: "'k \<Rightarrow> ('k, 'v) ARCLFUPart \<Rightarrow> 'v option \<times> ('k, 'v) ARCLFUPart" where
  "t2_get k s =
     (case map_of (t2_real s) k of
        None \<Rightarrow> (None, s)
      | Some (w, c) \<Rightarrow> (Some w, s\<lparr>t2_real := (k, w, c + 1) # AList.delete k (t2_real s)\<rparr>))"

text \<open>
  Modelled from the spec: the ghost check of the missing LFU half (\<open>a hit on a ghost removes
  that ghost\<close>).
\<close>

definition t2_checkGhost :: "'k \<Rightarrow> ('k, 'v) ARCLFUPart \<Rightarrow> bool \<times> ('k, 'v) ARCLFUPart" where
  "t2_checkGhost k s =
     (if k \<in> set (t2_ghost s) then (True, s\<lparr>t2_ghost := removeAll k (t2_ghost s)\<rparr>)
      else (False, s))"

text \<open>
  Modelled from the spec: the capacity changes of the missing LFU half
  (\<open>attempt cap(T2) \<leftarrow> cap(T2) - 1\<close>, rejected at capacity 0; a full real list gives up its
  least recent entry first).
\<close>

definition t2_decreaseCapacity :: "('k, 'v) ARCLFUPart \<Rightarrow> bool \<times> ('k, 'v) ARCLFUPart" where
  "t2_decreaseCapacity s =
     (if t2_capacity s = 0 then (False, s)
      else let s1 = (if length (t2_real s) = t2_capacity s then t2_evict s else s)
           in (True, s1\<lparr>t2_capacity := t2_capacity s1 - 1\<rparr>))"

text \<open>
  Modelled from the spec: the capacity increase of the missing LFU half
  (\<open>cap(T2) \<leftarrow> cap(T2) + 1\<close>).
\<close>

definition t2_increaseCapacity :: "('k, 'v) ARCLFUPart \<Rightarrow> ('k, 'v) ARCLFUPart" where
  "t2_increaseCapacity s = s\<lparr>t2_capacity := t2_capacity s + 1\<rparr>"

text \<open>
  The cache itself is in the sources. Its constructor hands the whole \<open>capacity\<close> to both
  halves. The uninitialised ghost capacity of the LRU half is the parameter \<open>g\<close>.
\<close>

record ('k, 'v) ARCCache =
  cache_capacity :: nat
  cache_transformThreshold :: nat
  lruPart :: "('k, 'v) ARCLRUPart"
  lfuPart :: "('k, 'v) ARCLFUPart"

definition ARCCache_new :: "nat \<Rightarrow> nat \<Rightarrow> nat \<Rightarrow> ('k, 'v) ARCCache" where
  "ARCCache_new capacity threshold g =
     \<lparr>cache_capacity = capacity, cache_transformThreshold = threshold,
      lruPart = ARCLRUPart_new capacity g threshold,
      lfuPart = ARCLFUPart_new capacity threshold\<rparr>"

definition checkGhostCaches ::
  "'k \<Rightarrow> ('k, 'v) ARCCache \<Rightarrow> (bool \<times> ('k, 'v) ARCCache) option" where
  "checkGhostCaches k c =
     (case checkGhost k (lruPart c) of
        None \<Rightarrow> None
      | Some (hit, l1) \<Rightarrow>
          if hit then
            (let (ok, f1) = t2_decreaseCapacity (lfuPart c)
             in Some (True, c\<lparr>lruPart := (if ok then increaseCapacity l1 else l1),
                              lfuPart := f1\<rparr>))
          else
            (let (hit2, f1) = t2_checkGhost k (lfuPart c)
             in if hit2 then
                  (case decreaseCapacity l1 of
                     None \<Rightarrow> None
                   | Some (ok, l2) \<Rightarrow>
                       Some (True, c\<lparr>lruPart := l2,
                                      lfuPart := (if ok then t2_increaseCapacity f1 else f1)\<rparr>))
                else Some (False, c\<lparr>lruPart := l1, lfuPart := f1\<rparr>)))"

definition cache_put :: "'k \<Rightarrow> 'v \<Rightarrow> ('k, 'v) ARCCache \<Rightarrow> ('k, 'v) ARCCache option" where
  "cache_put k v c =
     (case checkGhostCaches k c of
        None \<Rightarrow> None
      | Some (inGhost, c1) \<Rightarrow>
          (case arc_put k v (lruPart c1) of
             None \<Rightarrow> None
           | Some (ok, l) \<Rightarrow>
               Some (c1\<lparr>lruPart := l,
                        lfuPart := (if \<not> inGhost \<and> ok then snd (t2_put k v (lfuPart c1))
                                    else lfuPart c1)\<rparr>)))"

definition cache_get :: "'k \<Rightarrow> ('k, 'v) ARCCache \<Rightarrow> ('v option \<times> ('k, 'v) ARCCache) option" where
  "cache_get k c =
     (case checkGhostCaches k c of
        None \<Rightarrow> None
      | Some (inGhost, c1) \<Rightarrow>
          (case arc_get k (lruPart c1) of
             None \<Rightarrow> None
           | Some (r, shouldTransform, l) \<Rightarrow>
               (case r of
                  Some v \<Rightarrow>
                    Some (Some v,
                          c1\<lparr>lruPart := l,
                             lfuPart := (if shouldTransform then snd (t2_put k v (lfuPart c1))
                                         else lfuPart c1)\<rparr>)
                | None \<Rightarrow>
                    (let (r2, f) = t2_get k (lfuPart c1)
                     in Some (r2, c1\<lparr>lruPart := l, lfuPart := f\<rparr>)))))"

fun arc_run :: "('k, 'v) cache_op list \<Rightarrow> ('k, 'v) ARCCache \<Rightarrow> ('k, 'v) ARCCache option" where
  "arc_run [] c = Some c"
| "arc_run (Put k v # ops) c =
     (case cache_put k v c of None \<Rightarrow> None | Some c1 \<Rightarrow> arc_run ops c1)"
| "arc_run (Get k # ops) c =
     (case cache_get k c of None \<Rightarrow> None | Some (r, c1) \<Rightarrow> arc_run ops c1)"

definition cap_sum :: "('k, 'v) ARCCache \<Rightarrow> nat" where
  "cap_sum c = arc_capacity (lruPart c) + t2_capacity (lfuPart c)"

text \<open>The same for a workload on the LRU half alone.\<close>

fun part_run :: "('k, 'v) cache_op list \<Rightarrow> ('k, 'v) ARCLRUPart \<Rightarrow> ('k, 'v) ARCLRUPart option"
  where
  "part_run [] s = Some s"
| "part_run (Put k v # ops) s =
     (case arc_put k v s of None \<Rightarrow> None | Some (b, s1) \<Rightarrow> part_run ops s1)"
| "part_run (Get k # ops) s =
     (case arc_get k s of None \<Rightarrow> None | Some (r, st, s1) \<Rightarrow> part_run ops s1)"

text \<open>
  What one call of \<^verbatim>\<open>checkGhostCaches\<close> does to the pair of capacities (LRU half, LFU half),
  read off its branches: a hit in the ghost map of the LRU half, else a hit in the ghost list
  of the LFU half, else no change.
\<close>

definition rebalanced :: "'k \<Rightarrow> ('k, 'v) ARCCache \<Rightarrow> nat \<times> nat" where
  "rebalanced k c =
     (let l = arc_capacity (lruPart c); f = t2_capacity (lfuPart c) in
      if um_find k (ghostCache (lruPart c)) \<noteq> None then
        (if f = 0 then (l, f) else (l + 1, f - 1))
      else if k \<in> set (t2_ghost (lfuPart c)) then
        (if l = 0 then (l, f) else (l - 1, f + 1))
      else (l, f))"

section \<open>LRUCache: the index holds the last distinct keys\<close>

lemma remdups_snoc: "remdups (tr @ [k]) = removeAll k (remdups tr) @ [k]"
  by (induction tr) auto

lemma rev_removeAll': "rev (removeAll k xs) = removeAll k (rev xs)"
  by (simp add: removeAll_filter_not_eq rev_filter)

lemma last_distinct_snoc:
  "rev (remdups (tr @ [k])) = k # removeAll k (rev (remdups tr))"
  by (simp add: remdups_snoc rev_removeAll')

lemma take_removeAll_in:
  "distinct R \<Longrightarrow> k \<in> set (take n R) \<Longrightarrow> take (n - 1) (removeAll k R) = removeAll k (take n R)"
proof (induction R arbitrary: n)
  case Nil then show ?case by simp
next
  case (Cons x R)
  show ?case
  proof (cases n)
    case 0 with Cons.prems show ?thesis by simp
  next
    case (Suc m)
    show ?thesis
    proof (cases "x = k")
      case True
      with Cons.prems have "k \<notin> set R" by simp
      then have "k \<notin> set (take m R)" by (auto dest: in_set_takeD)
      with True Suc \<open>k \<notin> set R\<close> show ?thesis by (simp add: removeAll_id)
    next
      case False
      with Cons.prems Suc have km: "k \<in> set (take m R)" by simp
      then obtain m' where m: "m = Suc m'" by (cases m) auto
      from Cons.IH[of m] Cons.prems km have "take (m - 1) (removeAll k R) = removeAll k (take m R)" by simp
      with False Suc m show ?thesis by simp
    qed
  qed
qed

lemma take_removeAll_notin:
  "k \<notin> set (take n R) \<Longrightarrow> take n (removeAll k R) = take n R"
proof (induction R arbitrary: n)
  case Nil then show ?case by simp
next
  case (Cons x R)
  then show ?case by (cases n) auto
qed

lemma um_update_fresh: "k \<notin> fst ` set m \<Longrightarrow> AList.update k v m = m @ [(k, v)]"
  by (induction m) auto

lemma um_delete_set: "set (AList.delete k m) = {p \<in> set m. fst p \<noteq> k}"
  by (induction m) auto

lemma lru_wf_size: "lru_wf s \<Longrightarrow> um_size (lru_nodeMap s) = length (chain s)"
proof -
  assume wf: "lru_wf s"
  then have d: "distinct (lru_nodeMap s)" by (auto simp: lru_wf_def dest: distinct_map[THEN iffD1])
  have inj: "inj_on (\<lambda>a. (key_at s a, a)) (set (chain s))" by (auto simp: inj_on_def)
  have "length (lru_nodeMap s) = card (set (lru_nodeMap s))" using d by (simp add: distinct_card)
  also have "\<dots> = card ((\<lambda>a. (key_at s a, a)) ` set (chain s))" using wf by (simp add: lru_wf_def)
  also have "\<dots> = card (set (chain s))" using inj by (rule card_image)
  also have "\<dots> = length (chain s)" using wf by (simp add: lru_wf_def distinct_card)
  finally show ?thesis by (simp add: um_size_def)
qed

lemma lru_wf_find_Some:
  "lru_wf s \<Longrightarrow> um_find k (lru_nodeMap s) = Some a \<longleftrightarrow> a \<in> set (chain s) \<and> key_at s a = k"
  by (auto simp: lru_wf_def um_find_def)

lemma lru_wf_keys: "lru_wf s \<Longrightarrow> um_keys (lru_nodeMap s) = set (chain_keys s)"
  by (force simp: lru_wf_def um_keys_def chain_keys_def)

lemma lru_wf_find_None:
  "lru_wf s \<Longrightarrow> um_find k (lru_nodeMap s) = None \<longleftrightarrow> k \<notin> set (chain_keys s)"
  using lru_wf_keys[of s] by (simp add: um_find_def map_of_eq_None_iff um_keys_def)

lemma lru_wf_key_inj:
  "lru_wf s \<Longrightarrow> a \<in> set (chain s) \<Longrightarrow> b \<in> set (chain s) \<Longrightarrow> key_at s a = key_at s b \<Longrightarrow> a = b"
proof -
  assume wf: "lru_wf s" and a: "a \<in> set (chain s)" and b: "b \<in> set (chain s)"
    and e: "key_at s a = key_at s b"
  from wf a b have "(key_at s a, a) \<in> set (lru_nodeMap s)" "(key_at s b, b) \<in> set (lru_nodeMap s)"
    by (auto simp: lru_wf_def)
  with wf e show "a = b" by (auto simp: lru_wf_def dest: eq_key_imp_eq_value)
qed

lemma lru_wf_distinct_keys: "lru_wf s \<Longrightarrow> distinct (chain_keys s)"
proof -
  assume wf: "lru_wf s"
  then have "inj_on (key_at s) (set (chain s))"
    by (auto simp: inj_on_def dest: lru_wf_key_inj)
  moreover from wf have "distinct (chain s)" by (simp add: lru_wf_def)
  ultimately show ?thesis by (simp add: chain_keys_def distinct_map)
qed

lemma key_at_simps [simp]:
  "key_at (s\<lparr>chain := c\<rparr>) = key_at s"
  "key_at (s\<lparr>lru_nodeMap := m\<rparr>) = key_at s"
  "key_at (s\<lparr>fresh := f\<rparr>) = key_at s"
  by (simp_all add: key_at_def fun_eq_iff)

lemma map_key_remove1:
  assumes "lru_wf s" "a \<in> set (chain s)"
  shows "map (key_at s) (remove1 a (chain s)) = removeAll (key_at s a) (chain_keys s)"
proof -
  from assms have inj: "inj_on (key_at s) (insert a (set (chain s)))"
    by (auto simp: inj_on_def insert_absorb dest: lru_wf_key_inj)
  from assms have "remove1 a (chain s) = removeAll a (chain s)"
    by (simp add: lru_wf_def distinct_remove1_removeAll)
  with inj show ?thesis by (simp add: chain_keys_def map_removeAll_inj_on)
qed

lemma move_ok:
  assumes "lru_wf s" "a \<in> set (chain s)"
  shows "moveToMostRecent a s = Some (s\<lparr>chain := remove1 a (chain s) @ [a]\<rparr>)"
    and "lru_wf (s\<lparr>chain := remove1 a (chain s) @ [a]\<rparr>)"
    and "chain_keys (s\<lparr>chain := remove1 a (chain s) @ [a]\<rparr>)
          = removeAll (key_at s a) (chain_keys s) @ [key_at s a]"
proof -
  show "moveToMostRecent a s = Some (s\<lparr>chain := remove1 a (chain s) @ [a]\<rparr>)"
    using assms by (simp add: moveToMostRecent_def removeNode_def insertNode_def)
  have "set (remove1 a (chain s) @ [a]) = set (chain s)"
    using assms by (auto simp: lru_wf_def)
  then show "lru_wf (s\<lparr>chain := remove1 a (chain s) @ [a]\<rparr>)"
    using assms by (simp add: lru_wf_def)
  show "chain_keys (s\<lparr>chain := remove1 a (chain s) @ [a]\<rparr>)
          = removeAll (key_at s a) (chain_keys s) @ [key_at s a]"
    using map_key_remove1[OF assms] by (simp add: chain_keys_def)
qed

lemma setval_wf:
  assumes "lru_wf s" "store s a = Some n"
  shows "lru_wf (s\<lparr>store := (store s)(a \<mapsto> n\<lparr>node_value := v\<rparr>)\<rparr>)"
    and "key_at (s\<lparr>store := (store s)(a \<mapsto> n\<lparr>node_value := v\<rparr>)\<rparr>) = key_at s"
proof -
  show k: "key_at (s\<lparr>store := (store s)(a \<mapsto> n\<lparr>node_value := v\<rparr>)\<rparr>) = key_at s"
    using assms by (auto simp: key_at_def fun_eq_iff)
  show "lru_wf (s\<lparr>store := (store s)(a \<mapsto> n\<lparr>node_value := v\<rparr>)\<rparr>)"
    using assms unfolding lru_wf_def k by auto
qed

lemma last_distinct_hit:
  assumes "distinct ks" "k \<in> set ks" "rev ks = last_distinct n tr"
  shows "rev (removeAll k ks @ [k]) = last_distinct n (tr @ [k])"
proof -
  from assms have kin: "k \<in> set (take n (rev (remdups tr)))" 
    by (metis last_distinct_def set_rev)
  then have n: "n > 0" by (cases n) auto
  have "last_distinct n (tr @ [k]) = take n (k # removeAll k (rev (remdups tr)))"
    by (simp add: last_distinct_def last_distinct_snoc)
  also have "\<dots> = k # take (n - 1) (removeAll k (rev (remdups tr)))"
    using n by (cases n) auto
  also have "\<dots> = k # removeAll k (take n (rev (remdups tr)))"
    using take_removeAll_in[OF _ kin] by simp
  also have "\<dots> = k # removeAll k (rev ks)" using assms by (simp add: last_distinct_def)
  finally show ?thesis by (simp add: rev_removeAll')
qed

lemma last_distinct_miss_room:
  assumes "k \<notin> set ks" "rev ks = last_distinct n tr" "length ks < n"
  shows "rev (ks @ [k]) = last_distinct n (tr @ [k])"
proof -
  let ?R = "rev (remdups tr)"
  from assms have "length (take n ?R) < n" by (metis last_distinct_def length_rev)
  then have full: "take n ?R = ?R" by (simp add: min_def split: if_splits)
  with assms(2) have R: "?R = rev ks" by (simp add: last_distinct_def)
  from assms(1) have "k \<notin> set (rev ks)" by simp
  then have "k \<notin> set ?R" unfolding R .
  then have "removeAll k ?R = ?R" by (rule removeAll_id)
  then have "last_distinct n (tr @ [k]) = take n (k # ?R)"
    by (simp add: last_distinct_def last_distinct_snoc)
  also have "\<dots> = k # ?R" using assms(3) unfolding R by (cases n) auto
  finally show ?thesis unfolding R by simp
qed

lemma last_distinct_miss_full:
  assumes "k \<notin> set ks" "rev ks = last_distinct n tr" "length ks = n" "n > 0"
  shows "rev (tl ks @ [k]) = last_distinct n (tr @ [k])"
proof -
  let ?R = "rev (remdups tr)"
  from assms have kn: "k \<notin> set (take n ?R)" by (metis last_distinct_def set_rev)
  have "last_distinct n (tr @ [k]) = take n (k # removeAll k ?R)"
    by (simp add: last_distinct_def last_distinct_snoc)
  also have "\<dots> = k # take (n - 1) (removeAll k ?R)" using assms by (cases n) auto
  also have "take (n - 1) (removeAll k ?R) = take (n - 1) (take n (removeAll k ?R))"
    by (simp add: min_def)
  also have "take n (removeAll k ?R) = take n ?R" using kn by (rule take_removeAll_notin)
  also have "take n ?R = rev ks" using assms by (simp add: last_distinct_def)
  also have "take (n - 1) (rev ks) = rev (tl ks)"
    using assms(3,4) by (cases ks) auto
  finally show ?thesis by simp
qed

lemma alloc_ok:
  assumes wf: "lru_wf s1" and k: "k \<notin> set (chain_keys s1)"
  shows "lru_wf (lru_alloc k v s1)" and "chain_keys (lru_alloc k v s1) = chain_keys s1 @ [k]"
proof -
  let ?s = "lru_alloc k v s1"
  have fr: "fresh s1 \<notin> set (chain s1)" using wf by (auto simp: lru_wf_def)
  have ka: "\<And>a. a \<in> set (chain s1) \<Longrightarrow> key_at ?s a = key_at s1 a"
    using fr by (auto simp: key_at_def lru_alloc_def)
  have kf: "key_at ?s (fresh s1) = k" by (simp add: key_at_def lru_alloc_def)
  have knm: "k \<notin> fst ` set (lru_nodeMap s1)"
    using k lru_wf_keys[OF wf] by (simp add: um_keys_def)
  then have M: "lru_nodeMap ?s = lru_nodeMap s1 @ [(k, fresh s1)]"
    by (simp add: lru_alloc_def um_assign_def um_update_fresh)
  have C: "chain ?s = chain s1 @ [fresh s1]" by (simp add: lru_alloc_def)
  show "chain_keys ?s = chain_keys s1 @ [k]"
    using ka kf by (simp add: chain_keys_def C)
  have "set (lru_nodeMap ?s) = (\<lambda>a. (key_at ?s a, a)) ` set (chain ?s)"
    unfolding M C using wf ka kf by (auto simp: lru_wf_def image_iff)
  moreover have "distinct (map fst (lru_nodeMap ?s))" unfolding M using wf knm by (simp add: lru_wf_def)
  moreover have "distinct (chain ?s)" unfolding C using wf fr by (simp add: lru_wf_def)
  moreover have "\<forall>a\<in>set (chain ?s). a < fresh ?s \<and> store ?s a \<noteq> None"
    unfolding C using wf by (auto simp: lru_wf_def lru_alloc_def less_Suc_eq)
  ultimately show "lru_wf ?s" by (simp add: lru_wf_def)
qed

lemma alloc_stores:
  "\<exists>a n. um_find k (lru_nodeMap (lru_alloc k v s1)) = Some a \<and>
         store (lru_alloc k v s1) a = Some n \<and> node_value n = v"
  by (simp add: lru_alloc_def um_find_def um_assign_def update_conv')

lemma evict_ok:
  assumes wf: "lru_wf s" and ne: "chain s \<noteq> []"
  shows "\<exists>s1. evictLeastRecent s = Some s1 \<and> lru_wf s1 \<and> chain_keys s1 = tl (chain_keys s)
          \<and> lru_capacity s1 = lru_capacity s"
proof -
  from ne obtain a rest where c: "chain s = a # rest" by (cases "chain s") auto
  with wf obtain n where n: "store s a = Some n" by (auto simp: lru_wf_def)
  let ?s1 = "s\<lparr>chain := rest, lru_nodeMap := um_erase (node_key n) (lru_nodeMap s)\<rparr>"
  have ev: "evictLeastRecent s = Some ?s1"
    using c n by (simp add: evictLeastRecent_def removeNode_def)
  have ka: "key_at s a = node_key n" using n by (simp add: key_at_def)
  have anr: "a \<notin> set rest" using wf c by (simp add: lru_wf_def)
  have keyne: "\<And>b. b \<in> set rest \<Longrightarrow> key_at s b \<noteq> key_at s a"
    using lru_wf_key_inj[OF wf, of _ a] anr c by auto
  have "set (lru_nodeMap ?s1) = (\<lambda>a. (key_at ?s1 a, a)) ` set (chain ?s1)"
    using wf c keyne ka by (auto simp: lru_wf_def um_erase_def um_delete_set)
  moreover have "distinct (map fst (lru_nodeMap ?s1))"
    using wf by (simp add: lru_wf_def um_erase_def distinct_delete)
  moreover have "distinct (chain ?s1)" using wf c by (simp add: lru_wf_def)
  moreover have "\<forall>b\<in>set (chain ?s1). b < fresh ?s1 \<and> store ?s1 b \<noteq> None"
    using wf c by (simp add: lru_wf_def)
  ultimately have "lru_wf ?s1" by (simp add: lru_wf_def)
  moreover have "chain_keys ?s1 = tl (chain_keys s)" by (simp add: chain_keys_def c)
  ultimately show ?thesis using ev by simp
qed

lemma addNewNode_alloc:
  "addNewNode k v s =
     map_option (lru_alloc k v)
       (if um_size (lru_nodeMap s) \<ge> size_t_of_int (lru_capacity s) then evictLeastRecent s else Some s)"
  by (simp add: addNewNode_def lru_alloc_def insertNode_def Let_def split: option.splits)

lemma size_t_of_int_id: "0 \<le> C \<Longrightarrow> C \<le> INT_MAX \<Longrightarrow> size_t_of_int C = nat C"
  by (simp add: size_t_of_int_def INT_MAX_def)

lemma lru_inv_length: "lru_inv C tr s \<Longrightarrow> length (chain s) \<le> nat C"
proof -
  assume "lru_inv C tr s"
  then have "length (rev (chain_keys s)) \<le> nat C" by (simp add: lru_inv_def last_distinct_def)
  then show ?thesis by (simp add: chain_keys_def)
qed

lemma put_inv:
  assumes C: "1 \<le> C" "C \<le> INT_MAX" and inv: "lru_inv C tr s"
  shows "\<exists>s'. put k v s = Some s' \<and> lru_inv C (tr @ [k]) s' \<and>
           (\<exists>a n. um_find k (lru_nodeMap s') = Some a \<and> store s' a = Some n \<and> node_value n = v)"
proof -
  from inv have wf: "lru_wf s" and cap: "lru_capacity s = C"
    and ks: "rev (chain_keys s) = last_distinct (nat C) tr" by (simp_all add: lru_inv_def)
  show ?thesis
  proof (cases "um_find k (lru_nodeMap s)")
    case (Some a)
    with wf have a: "a \<in> set (chain s)" and ka: "key_at s a = k" by (simp_all add: lru_wf_find_Some)
    from wf a obtain n where n: "store s a = Some n" by (auto simp: lru_wf_def)
    let ?s0 = "s\<lparr>store := (store s)(a \<mapsto> n\<lparr>node_value := v\<rparr>)\<rparr>"
    have wf0: "lru_wf ?s0" and k0: "key_at ?s0 = key_at s" using setval_wf[OF wf n] by auto
    have a0: "a \<in> set (chain ?s0)" using a by simp
    let ?s' = "?s0\<lparr>chain := remove1 a (chain ?s0) @ [a]\<rparr>"
    have p: "put k v s = Some ?s'"
      using Some n C cap move_ok(1)[OF wf0 a0] by (simp add: put_def updateExistingNode_def)
    have ck0: "chain_keys ?s0 = chain_keys s" using k0 by (simp add: chain_keys_def)
    have "chain_keys ?s' = removeAll k (chain_keys s) @ [k]"
      using move_ok(3)[OF wf0 a0] k0 ka ck0 by simp
    moreover have "k \<in> set (chain_keys s)" using a ka by (auto simp: chain_keys_def)
    ultimately have "rev (chain_keys ?s') = last_distinct (nat C) (tr @ [k])"
      using last_distinct_hit[OF lru_wf_distinct_keys[OF wf] _ ks] by simp
    moreover have "lru_wf ?s'" using move_ok(2)[OF wf0 a0] .
    ultimately have "lru_inv C (tr @ [k]) ?s'" using cap by (simp add: lru_inv_def)
    moreover have "um_find k (lru_nodeMap ?s') = Some a" using Some by simp
    moreover have "store ?s' a = Some (n\<lparr>node_value := v\<rparr>)" by simp
    ultimately show ?thesis using p by simp
  next
    case None
    with wf have kn: "k \<notin> set (chain_keys s)" by (simp add: lru_wf_find_None)
    have sz: "um_size (lru_nodeMap s) = length (chain_keys s)"
      using lru_wf_size[OF wf] by (simp add: chain_keys_def)
    have le: "length (chain_keys s) \<le> nat C" using lru_inv_length[OF inv] by (simp add: chain_keys_def)
    have st: "size_t_of_int (lru_capacity s) = nat C" using C cap by (simp add: size_t_of_int_id)
    show ?thesis
    proof (cases "length (chain_keys s) < nat C")
      case True
      then have p: "put k v s = Some (lru_alloc k v s)"
        using None C cap sz st by (simp add: put_def addNewNode_alloc)
      have "rev (chain_keys (lru_alloc k v s)) = last_distinct (nat C) (tr @ [k])"
        using alloc_ok(2)[OF wf kn] last_distinct_miss_room[OF kn ks True] by simp
      then have "lru_inv C (tr @ [k]) (lru_alloc k v s)"
        using alloc_ok(1)[OF wf kn] cap by (simp add: lru_inv_def lru_alloc_def)
      with p alloc_stores[of k v s] show ?thesis by simp
    next
      case False
      with le have full: "length (chain_keys s) = nat C" by simp
      with C have ne: "chain s \<noteq> []" by (auto simp: chain_keys_def)
      from evict_ok[OF wf ne] obtain s1 where ev: "evictLeastRecent s = Some s1"
        and wf1: "lru_wf s1" and ck1: "chain_keys s1 = tl (chain_keys s)"
        and cap1: "lru_capacity s1 = lru_capacity s" by blast
      have p: "put k v s = Some (lru_alloc k v s1)"
        using None C cap sz st full ev by (simp add: put_def addNewNode_alloc)
      have kn1: "k \<notin> set (chain_keys s1)" using kn ck1
        by (metis list.sel(2) list.set_sel(2))
      have "rev (chain_keys (lru_alloc k v s1)) = last_distinct (nat C) (tr @ [k])"
        using alloc_ok(2)[OF wf1 kn1] ck1 last_distinct_miss_full[OF kn ks full] C by simp
      then have "lru_inv C (tr @ [k]) (lru_alloc k v s1)"
        using alloc_ok(1)[OF wf1 kn1] cap cap1 by (simp add: lru_inv_def lru_alloc_def)
      with p alloc_stores[of k v s1] show ?thesis by simp
    qed
  qed
qed

lemma get_inv:
  assumes inv: "lru_inv C tr s"
  shows "\<exists>r s'. get k s = Some (r, s') \<and> lru_inv C (if r = None then tr else tr @ [k]) s' \<and>
           r = (case um_find k (lru_nodeMap s) of
                  None \<Rightarrow> None
                | Some a \<Rightarrow> map_option node_value (store s a))"
proof -
  from inv have wf: "lru_wf s" and cap: "lru_capacity s = C"
    and ks: "rev (chain_keys s) = last_distinct (nat C) tr" by (simp_all add: lru_inv_def)
  show ?thesis
  proof (cases "um_find k (lru_nodeMap s)")
    case None
    then have "get k s = Some (None, s)" by (simp add: get_def)
    with inv None show ?thesis by simp
  next
    case (Some a)
    with wf have a: "a \<in> set (chain s)" and ka: "key_at s a = k" by (simp_all add: lru_wf_find_Some)
    from wf a obtain n where n: "store s a = Some n" by (auto simp: lru_wf_def)
    let ?s' = "s\<lparr>chain := remove1 a (chain s) @ [a]\<rparr>"
    have g: "get k s = Some (Some (node_value n), ?s')"
      using Some n move_ok(1)[OF wf a] by (simp add: get_def)
    have "chain_keys ?s' = removeAll k (chain_keys s) @ [k]"
      using move_ok(3)[OF wf a] ka by simp
    moreover have "k \<in> set (chain_keys s)" using a ka by (auto simp: chain_keys_def)
    ultimately have "rev (chain_keys ?s') = last_distinct (nat C) (tr @ [k])"
      using last_distinct_hit[OF lru_wf_distinct_keys[OF wf] _ ks] by simp
    then have "lru_inv C (tr @ [k]) ?s'" using move_ok(2)[OF wf a] cap by (simp add: lru_inv_def)
    with g Some n show ?thesis by simp
  qed
qed

lemma init_inv: "lru_inv C [] (LRUCache_new C)"
  by (simp add: lru_inv_def lru_wf_def LRUCache_new_def chain_keys_def last_distinct_def)

lemma run_inv:
  assumes C: "1 \<le> C" "C \<le> INT_MAX"
  shows "lru_inv C tr0 s \<Longrightarrow> \<exists>s' tr. lru_run ops s = Some (s', tr) \<and> lru_inv C (tr0 @ tr) s'"
proof (induction ops arbitrary: s tr0)
  case Nil
  then show ?case by simp
next
  case (Cons op ops)
  show ?case
  proof (cases op)
    case (Put k v)
    from put_inv[OF C Cons.prems, of k v] obtain s1 where
      p: "put k v s = Some s1" and i1: "lru_inv C (tr0 @ [k]) s1" by blast
    from Cons.IH[OF i1] obtain s' tr where
      r: "lru_run ops s1 = Some (s', tr)" and i': "lru_inv C ((tr0 @ [k]) @ tr) s'" by blast
    from p r Put have "lru_run (op # ops) s = Some (s', k # tr)" by simp
    with i' show ?thesis by simp
  next
    case (Get k)
    from get_inv[OF Cons.prems, of k] obtain r s1 where
      g: "get k s = Some (r, s1)"
      and i1: "lru_inv C (if r = None then tr0 else tr0 @ [k]) s1" by blast
    from Cons.IH[OF i1] obtain s' tr where
      r: "lru_run ops s1 = Some (s', tr)"
      and i': "lru_inv C ((if r = None then tr0 else tr0 @ [k]) @ tr) s'" by blast
    from g r Get have "lru_run (op # ops) s = Some (s', if r = None then tr else k # tr)" by simp
    with i' show ?thesis by (cases r) auto
  qed
qed

text \<open>
  Claim C1. An \<open>LRUCache\<close> constructed with a capacity \<open>C\<close> from 1 to \<open>INT_MAX\<close>
  (the range of the constructor's \<open>int\<close>) runs every workload of puts and gets without
  undefined behaviour; afterwards the index has pairwise distinct keys, at most \<open>C\<close> of
  them, and its key set is exactly the last \<open>C\<close> distinct keys touched by a put or by a
  successful get: all touched keys when fewer than \<open>C\<close> distinct keys were touched.
\<close>

theorem lru_index_last_distinct:
  assumes "1 \<le> C" "C \<le> INT_MAX"
  shows "\<exists>s tr. lru_run ops (LRUCache_new C) = Some (s, tr) \<and>
           distinct (map fst (lru_nodeMap s)) \<and>
           um_size (lru_nodeMap s) \<le> nat C \<and>
           um_keys (lru_nodeMap s) = set (last_distinct (nat C) tr) \<and>
           (length (remdups tr) \<le> nat C \<longrightarrow> um_keys (lru_nodeMap s) = set tr)"
proof -
  from run_inv[OF assms init_inv, of ops] obtain s tr where
    r: "lru_run ops (LRUCache_new C) = Some (s, tr)" and i: "lru_inv C tr s" by auto
  from i have wf: "lru_wf s" and ks: "rev (chain_keys s) = last_distinct (nat C) tr"
    by (simp_all add: lru_inv_def)
  have "um_size (lru_nodeMap s) \<le> nat C"
    using lru_wf_size[OF wf] lru_inv_length[OF i] by simp
  moreover have k: "um_keys (lru_nodeMap s) = set (last_distinct (nat C) tr)"
    using lru_wf_keys[OF wf] ks by (metis set_rev)
  moreover have "length (remdups tr) \<le> nat C \<longrightarrow> um_keys (lru_nodeMap s) = set tr"
    unfolding k by (simp add: last_distinct_def)
  moreover have "distinct (map fst (lru_nodeMap s))" using wf by (simp add: lru_wf_def)
  ultimately show ?thesis using r by blast
qed

theorem lru_index_last_distinct_witness:
  "(1::int) \<le> 2 \<and> 2 \<le> INT_MAX \<and>
   (\<exists>s tr. lru_run [Put ''A'' (1::int), Put ''B'' 2, Get ''A'', Put ''C'' 3, Get ''B'']
              (LRUCache_new 2) = Some (s, tr) \<and>
           distinct (map fst (lru_nodeMap s)) \<and>
           um_size (lru_nodeMap s) \<le> nat 2 \<and>
           um_keys (lru_nodeMap s) = set (last_distinct (nat 2) tr) \<and>
           (length (remdups tr) \<le> nat 2 \<longrightarrow> um_keys (lru_nodeMap s) = set tr))"
  using lru_index_last_distinct
    [of 2 "[Put ''A'' (1::int), Put ''B'' 2, Get ''A'', Put ''C'' 3, Get ''B'']"]
  by (simp add: INT_MAX_def)

lemmas lru_eval =
  put_def get_def LRUCache_new_def addNewNode_def updateExistingNode_def
  moveToMostRecent_def removeNode_def insertNode_def evictLeastRecent_def
  um_find_def um_assign_def um_erase_def um_size_def um_keys_def size_t_of_int_def

text \<open>
  Claim C8 (scenario S1). On a fresh \<open>LRUCache\<close> of capacity 2, after
  \<open>put(A,1); put(B,2); get(A); put(C,3)\<close> the index holds exactly \<open>A\<close> and \<open>C\<close> (the
  put of \<open>C\<close> evicted \<open>B\<close>, the least recently used entry), and the following
  \<open>get(B)\<close> misses, \<open>get(A)\<close> hits with 1 and \<open>get(C)\<close> hits with 3.
\<close>

theorem lru_scenario_S1:
  "map_option (\<lambda>(s, tr). um_keys (lru_nodeMap s))
     (lru_run [Put ''A'' (1::int), Put ''B'' 2, Get ''A'', Put ''C'' 3] (LRUCache_new 2))
     = Some {''A'', ''C''} \<and>
   lru_results [Put ''A'' (1::int), Put ''B'' 2, Get ''A'', Put ''C'' 3,
                Get ''B'', Get ''A'', Get ''C''] (LRUCache_new 2)
     = Some [Some 1, None, Some 1, Some 3]"
  by (simp add: lru_eval)

section \<open>LFUCache: well-formedness is kept by every operation\<close>

lemma set_update_distinct:
  "distinct (map fst al) \<Longrightarrow> set (AList.update k v al) = insert (k, v) {p \<in> set al. fst p \<noteq> k}"
  by (induction al) (auto simp: rev_image_eqI)

lemma fl_unlink_keys [simp]: "map fst (fl_unlink a fl) = map fst fl"
  by (induction fl) (auto simp: fl_unlink_def)

lemma fl_unlink_set:
  "set (fl_unlink a fl) = (\<lambda>(f, b). (f, removeAll a b)) ` set fl"
  by (simp add: fl_unlink_def)

lemma fl_unlink_find:
  "um_find f (fl_unlink a fl) = map_option (removeAll a) (um_find f fl)"
  by (induction fl) (auto simp: fl_unlink_def um_find_def)

lemma um_find_Some_iff:
  "distinct (map fst m) \<Longrightarrow> um_find k m = Some v \<longleftrightarrow> (k, v) \<in> set m"
  by (simp add: um_find_def)

lemma um_find_None_iff: "um_find k m = None \<longleftrightarrow> k \<notin> fst ` set m"
  by (simp add: um_find_def map_of_eq_None_iff)

lemma addToFreqList_eq:
  "lfu_store s a = Some n \<Longrightarrow>
   addToFreqList a s = Some (s\<lparr>freqToFreqList := fl_link (freq n) a (freqToFreqList s)\<rparr>)"
  by (auto simp: addToFreqList_def fl_link_def um_find_def um_assign_def update_conv' Let_def
           split: option.splits)

lemma fl_link_keys: "fst ` set (fl_link f a fl) = insert f (fst ` set fl)"
  by (simp add: fl_link_def dom_update)

lemma fl_link_distinct: "distinct (map fst fl) \<Longrightarrow> distinct (map fst (fl_link f a fl))"
  by (simp add: fl_link_def distinct_update)

lemma fl_link_set:
  "distinct (map fst fl) \<Longrightarrow>
   set (fl_link f a fl) =
     insert (f, (case map_of fl f of None \<Rightarrow> [] | Some b \<Rightarrow> b) @ [a]) {p \<in> set fl. fst p \<noteq> f}"
  by (simp add: fl_link_def set_update_distinct)

lemma removeFromFreqList_eq:
  "lfu_store s a = Some n \<Longrightarrow> freq n \<in> fst ` set (freqToFreqList s) \<Longrightarrow>
   removeFromFreqList a s = Some (s\<lparr>freqToFreqList := fl_unlink a (freqToFreqList s)\<rparr>)"
  by (auto simp: removeFromFreqList_def um_find_None_iff split: option.splits)

lemma lfu_coreI:
  assumes "distinct (map fst (lfu_nodeMap s))" "distinct (map snd (lfu_nodeMap s))"
    "distinct (map fst (freqToFreqList s))"
    "\<And>k a. (k, a) \<in> set (lfu_nodeMap s) \<Longrightarrow>
        a < lfu_fresh s \<and> (\<exists>n. lfu_store s a = Some n \<and> key n = k)"
    "\<And>k a n. (k, a) \<in> set (lfu_nodeMap s) \<Longrightarrow> a \<notin> X \<Longrightarrow> lfu_store s a = Some n \<Longrightarrow>
        1 \<le> freq n \<and> (\<exists>b. (freq n, b) \<in> set (freqToFreqList s) \<and> a \<in> set b)"
    "\<And>f b. (f, b) \<in> set (freqToFreqList s) \<Longrightarrow> 1 \<le> f \<and> distinct b"
    "\<And>f b a. (f, b) \<in> set (freqToFreqList s) \<Longrightarrow> a \<in> set b \<Longrightarrow>
        a \<notin> X \<and> a < lfu_fresh s \<and> (\<exists>n. lfu_store s a = Some n \<and> freq n = f)"
  shows "lfu_core X s"
  unfolding lfu_core_def
proof (intro conjI ballI)
  fix p assume p: "p \<in> set (lfu_nodeMap s)"
  obtain k a where pa: "p = (k, a)" by (cases p)
  from assms(4)[of k a] p pa obtain n where n: "a < lfu_fresh s" "lfu_store s a = Some n" "key n = k"
    by auto
  from assms(5)[of k a n] p pa n
  have "a \<notin> X \<longrightarrow> 1 \<le> freq n \<and> (\<exists>b. (freq n, b) \<in> set (freqToFreqList s) \<and> a \<in> set b)"
    by blast
  with n pa show "case p of (k, a) \<Rightarrow> a < lfu_fresh s \<and>
        (\<exists>n. lfu_store s a = Some n \<and> key n = k \<and>
             (a \<notin> X \<longrightarrow> 1 \<le> freq n \<and>
                (\<exists>b. (freq n, b) \<in> set (freqToFreqList s) \<and> a \<in> set b)))"
    by simp
next
  fix p assume p: "p \<in> set (freqToFreqList s)"
  obtain f b where pa: "p = (f, b)" by (cases p)
  from assms(6)[of f b] assms(7)[of f b] p pa
  show "case p of (f, b) \<Rightarrow> 1 \<le> f \<and> distinct b \<and>
        (\<forall>a \<in> set b. a \<notin> X \<and> a < lfu_fresh s \<and>
           (\<exists>n. lfu_store s a = Some n \<and> freq n = f))"
    by simp
qed (simp_all add: assms(1-3))

lemma core_distinct:
  "lfu_core X s \<Longrightarrow> distinct (map fst (lfu_nodeMap s))"
  "lfu_core X s \<Longrightarrow> distinct (map snd (lfu_nodeMap s))"
  "lfu_core X s \<Longrightarrow> distinct (map fst (freqToFreqList s))"
  by (simp_all add: lfu_core_def)

lemma core_nm:
  "lfu_core X s \<Longrightarrow> (k, a) \<in> set (lfu_nodeMap s) \<Longrightarrow>
     a < lfu_fresh s \<and> (\<exists>n. lfu_store s a = Some n \<and> key n = k)"
proof -
  assume c: "lfu_core X s" and m: "(k, a) \<in> set (lfu_nodeMap s)"
  from c have "\<forall>(k, a) \<in> set (lfu_nodeMap s).
        a < lfu_fresh s \<and>
        (\<exists>n. lfu_store s a = Some n \<and> key n = k \<and>
             (a \<notin> X \<longrightarrow> 1 \<le> freq n \<and>
                (\<exists>b. (freq n, b) \<in> set (freqToFreqList s) \<and> a \<in> set b)))"
    unfolding lfu_core_def by (elim conjE)
  from bspec[OF this m] show ?thesis by auto
qed

lemma core_nm_linked:
  "lfu_core X s \<Longrightarrow> (k, a) \<in> set (lfu_nodeMap s) \<Longrightarrow> a \<notin> X \<Longrightarrow> lfu_store s a = Some n \<Longrightarrow>
     1 \<le> freq n \<and> (\<exists>b. (freq n, b) \<in> set (freqToFreqList s) \<and> a \<in> set b)"
proof -
  assume c: "lfu_core X s" and m: "(k, a) \<in> set (lfu_nodeMap s)" and x: "a \<notin> X"
    and n: "lfu_store s a = Some n"
  from c have "\<forall>(k, a) \<in> set (lfu_nodeMap s).
        a < lfu_fresh s \<and>
        (\<exists>n. lfu_store s a = Some n \<and> key n = k \<and>
             (a \<notin> X \<longrightarrow> 1 \<le> freq n \<and>
                (\<exists>b. (freq n, b) \<in> set (freqToFreqList s) \<and> a \<in> set b)))"
    unfolding lfu_core_def by (elim conjE)
  from bspec[OF this m] n x show ?thesis by simp
qed

lemma core_fl_all:
  "lfu_core X s \<Longrightarrow> (f, b) \<in> set (freqToFreqList s) \<Longrightarrow>
     1 \<le> f \<and> distinct b \<and>
        (\<forall>a \<in> set b. a \<notin> X \<and> a < lfu_fresh s \<and>
           (\<exists>n. lfu_store s a = Some n \<and> freq n = f))"
proof -
  assume c: "lfu_core X s" and m: "(f, b) \<in> set (freqToFreqList s)"
  from c have "\<forall>(f, b) \<in> set (freqToFreqList s).
        1 \<le> f \<and> distinct b \<and>
        (\<forall>a \<in> set b. a \<notin> X \<and> a < lfu_fresh s \<and>
           (\<exists>n. lfu_store s a = Some n \<and> freq n = f))"
    unfolding lfu_core_def by (elim conjE)
  from bspec[OF this m] show ?thesis by simp
qed

lemma core_fl:
  "lfu_core X s \<Longrightarrow> (f, b) \<in> set (freqToFreqList s) \<Longrightarrow> 1 \<le> f \<and> distinct b"
  using core_fl_all[of X s f b] by simp

lemma core_fl_node:
  "lfu_core X s \<Longrightarrow> (f, b) \<in> set (freqToFreqList s) \<Longrightarrow> a \<in> set b \<Longrightarrow>
     a \<notin> X \<and> a < lfu_fresh s \<and> (\<exists>n. lfu_store s a = Some n \<and> freq n = f)"
  using core_fl_all[of X s f b] by simp

lemma unlink_core:
  assumes c: "lfu_core X s"
  shows "lfu_core (insert a X) (s\<lparr>freqToFreqList := fl_unlink a (freqToFreqList s)\<rparr>)"
    (is "lfu_core _ ?s")
proof (rule lfu_coreI)
  fix k a' n assume h: "(k, a') \<in> set (lfu_nodeMap ?s)" "a' \<notin> insert a X" "lfu_store ?s a' = Some n"
  with core_nm_linked[OF c, of k a' n] obtain b where
    b: "1 \<le> freq n" "(freq n, b) \<in> set (freqToFreqList s)" "a' \<in> set b" by auto
  then have "(freq n, removeAll a b) \<in> set (freqToFreqList ?s)" by (force simp: fl_unlink_set)
  moreover have "a' \<in> set (removeAll a b)" using b h by simp
  ultimately show "1 \<le> freq n \<and> (\<exists>b. (freq n, b) \<in> set (freqToFreqList ?s) \<and> a' \<in> set b)"
    using b by blast
next
  fix f b assume "(f, b) \<in> set (freqToFreqList ?s)"
  then obtain b0 where b0: "(f, b0) \<in> set (freqToFreqList s)" "b = removeAll a b0"
    by (auto simp: fl_unlink_set)
  with core_fl[OF c, of f b0] show "1 \<le> f \<and> distinct b" by (simp add: distinct_removeAll)
next
  fix f b a' assume h: "(f, b) \<in> set (freqToFreqList ?s)" "a' \<in> set b"
  then obtain b0 where b0: "(f, b0) \<in> set (freqToFreqList s)" "b = removeAll a b0"
    by (auto simp: fl_unlink_set)
  with h have "a' \<in> set b0" "a' \<noteq> a" by auto
  with core_fl_node[OF c b0(1), of a']
  show "a' \<notin> insert a X \<and> a' < lfu_fresh ?s \<and> (\<exists>n. lfu_store ?s a' = Some n \<and> freq n = f)"
    by simp
next
  fix k a' assume "(k, a') \<in> set (lfu_nodeMap ?s)"
  with core_nm[OF c, of k a']
  show "a' < lfu_fresh ?s \<and> (\<exists>n. lfu_store ?s a' = Some n \<and> key n = k)" by simp
qed (simp_all add: core_distinct[OF c])

lemma setfreq_core:
  assumes c: "lfu_core X s" and aX: "a \<in> X" and n: "lfu_store s a = Some n"
  shows "lfu_core X (s\<lparr>lfu_store := (lfu_store s)(a \<mapsto> n\<lparr>freq := f\<rparr>)\<rparr>)" (is "lfu_core _ ?s")
proof (rule lfu_coreI)
  fix k a' assume "(k, a') \<in> set (lfu_nodeMap ?s)"
  with core_nm[OF c, of k a'] n
  show "a' < lfu_fresh ?s \<and> (\<exists>n. lfu_store ?s a' = Some n \<and> key n = k)" by auto
next
  fix k a' n' assume h: "(k, a') \<in> set (lfu_nodeMap ?s)" "a' \<notin> X" "lfu_store ?s a' = Some n'"
  with aX have "a' \<noteq> a" by auto
  with h core_nm_linked[OF c, of k a' n']
  show "1 \<le> freq n' \<and> (\<exists>b. (freq n', b) \<in> set (freqToFreqList ?s) \<and> a' \<in> set b)" by simp
next
  fix f b a' assume h: "(f, b) \<in> set (freqToFreqList ?s)" "a' \<in> set b"
  with core_fl_node[OF c, of f b a'] aX have "a' \<noteq> a" by auto
  with h core_fl_node[OF c, of f b a']
  show "a' \<notin> X \<and> a' < lfu_fresh ?s \<and> (\<exists>n. lfu_store ?s a' = Some n \<and> freq n = f)" by simp
next
  fix f b assume "(f, b) \<in> set (freqToFreqList ?s)"
  with core_fl[OF c, of f b] show "1 \<le> f \<and> distinct b" by simp
qed (simp_all add: core_distinct[OF c])

lemma setval_core:
  assumes c: "lfu_core X s" and n: "lfu_store s a = Some n"
  shows "lfu_core X (s\<lparr>lfu_store := (lfu_store s)(a \<mapsto> n\<lparr>val := v\<rparr>)\<rparr>)" (is "lfu_core _ ?s")
proof (rule lfu_coreI)
  fix k a' assume "(k, a') \<in> set (lfu_nodeMap ?s)"
  with core_nm[OF c, of k a'] n
  show "a' < lfu_fresh ?s \<and> (\<exists>n. lfu_store ?s a' = Some n \<and> key n = k)" by auto
next
  fix k a' n' assume h: "(k, a') \<in> set (lfu_nodeMap ?s)" "a' \<notin> X" "lfu_store ?s a' = Some n'"
  show "1 \<le> freq n' \<and> (\<exists>b. (freq n', b) \<in> set (freqToFreqList ?s) \<and> a' \<in> set b)"
  proof (cases "a' = a")
    case True
    with h n have "n' = n\<lparr>val := v\<rparr>" by simp
    with h True n core_nm_linked[OF c, of k a n] show ?thesis by simp
  next
    case False
    with h core_nm_linked[OF c, of k a' n'] show ?thesis by simp
  qed
next
  fix f b a' assume h: "(f, b) \<in> set (freqToFreqList ?s)" "a' \<in> set b"
  with core_fl_node[OF c, of f b a'] n
  show "a' \<notin> X \<and> a' < lfu_fresh ?s \<and> (\<exists>n. lfu_store ?s a' = Some n \<and> freq n = f)"
    by (cases "a' = a") auto
next
  fix f b assume "(f, b) \<in> set (freqToFreqList ?s)"
  with core_fl[OF c, of f b] show "1 \<le> f \<and> distinct b" by simp
qed (simp_all add: core_distinct[OF c])

lemma fl_link_set_None:
  assumes d: "distinct (map fst fl)" and f: "f \<notin> fst ` set fl"
  shows "set (fl_link f a fl) = insert (f, [a]) (set fl)"
proof -
  from f have "map_of fl f = None" by (simp add: map_of_eq_None_iff)
  moreover from f have "{p \<in> set fl. fst p \<noteq> f} = set fl" by force
  ultimately show ?thesis using d by (simp add: fl_link_set)
qed

lemma fl_link_set_Some:
  assumes d: "distinct (map fst fl)" and f: "(f, b0) \<in> set fl"
  shows "set (fl_link f a fl) = insert (f, b0 @ [a]) {p \<in> set fl. fst p \<noteq> f}"
proof -
  from f d have "map_of fl f = Some b0" by simp
  then show ?thesis using d by (simp add: fl_link_set)
qed

lemma fl_link_cases:
  assumes d: "distinct (map fst fl)" and m: "(f', b') \<in> set (fl_link f a fl)"
  shows "(f' = f \<and> (\<exists>b0. b' = b0 @ [a] \<and> ((f, b0) \<in> set fl \<or> (b0 = [] \<and> f \<notin> fst ` set fl))))
         \<or> (f' \<noteq> f \<and> (f', b') \<in> set fl)"
proof (cases "f \<in> fst ` set fl")
  case False
  from m have "(f', b') = (f, [a]) \<or> (f', b') \<in> set fl"
    unfolding fl_link_set_None[OF d False] by simp
  then show ?thesis
  proof
    assume "(f', b') = (f, [a])"
    with False show ?thesis by simp
  next
    assume i: "(f', b') \<in> set fl"
    then have "f' \<in> fst ` set fl" by (rule rev_image_eqI) simp
    with False have "f' \<noteq> f" by blast
    with i show ?thesis by simp
  qed
next
  case True
  then obtain b0 where b0: "(f, b0) \<in> set fl" by auto
  from m have "(f', b') = (f, b0 @ [a]) \<or> ((f', b') \<in> set fl \<and> f' \<noteq> f)"
    unfolding fl_link_set_Some[OF d b0] by simp
  with b0 show ?thesis by blast
qed

lemma fl_link_new:
  assumes d: "distinct (map fst fl)"
  shows "\<exists>b0. (f, b0 @ [a]) \<in> set (fl_link f a fl) \<and> (\<forall>b. (f, b) \<in> set fl \<longrightarrow> b0 = b)"
proof (cases "f \<in> fst ` set fl")
  case False
  have "(f, [] @ [a]) \<in> set (fl_link f a fl)" unfolding fl_link_set_None[OF d False] by simp
  moreover have "\<forall>b. (f, b) \<in> set fl \<longrightarrow> [] = b"
  proof (intro allI impI)
    fix b assume "(f, b) \<in> set fl"
    then have "f \<in> fst ` set fl" by (rule rev_image_eqI) simp
    with False show "[] = b" by blast
  qed
  ultimately show ?thesis by blast
next
  case True
  then obtain b0 where b0: "(f, b0) \<in> set fl" by auto
  have "(f, b0 @ [a]) \<in> set (fl_link f a fl)" unfolding fl_link_set_Some[OF d b0] by simp
  moreover have "\<forall>b. (f, b) \<in> set fl \<longrightarrow> b0 = b"
    using d b0 by (meson eq_key_imp_eq_value)
  ultimately show ?thesis by blast
qed

lemma fl_link_old:
  assumes d: "distinct (map fst fl)" and "(f', b) \<in> set fl" "f' \<noteq> f"
  shows "(f', b) \<in> set (fl_link f a fl)"
  using assms by (simp add: fl_link_set)

lemma fl_link_casesE:
  assumes d: "distinct (map fst fl)" and m: "(f', b') \<in> set (fl_link f a fl)"
  obtains (linked) b0 where "f' = f" "b' = b0 @ [a]" "(f, b0) \<in> set fl"
    | (created) "f' = f" "b' = [a]" "f \<notin> fst ` set fl"
    | (other) "f' \<noteq> f" "(f', b') \<in> set fl"
  using fl_link_cases[OF d m] by (elim disjE conjE exE) simp_all

lemma link_core:
  assumes c: "lfu_core {a} s" and nm: "(k, a) \<in> set (lfu_nodeMap s)"
    and n: "lfu_store s a = Some n" and f1: "1 \<le> freq n"
  shows "lfu_core {} (s\<lparr>freqToFreqList := fl_link (freq n) a (freqToFreqList s)\<rparr>)"
    (is "lfu_core _ ?s")
proof (rule lfu_coreI)
  show "distinct (map fst (freqToFreqList ?s))"
    using core_distinct(3)[OF c] by (simp add: fl_link_distinct)
next
  fix k' a' assume "(k', a') \<in> set (lfu_nodeMap ?s)"
  with core_nm[OF c, of k' a']
  show "a' < lfu_fresh ?s \<and> (\<exists>n. lfu_store ?s a' = Some n \<and> key n = k')" by simp
next
  fix k' a' n' assume h: "(k', a') \<in> set (lfu_nodeMap ?s)" "lfu_store ?s a' = Some n'"
  note d = core_distinct(3)[OF c]
  from fl_link_new[OF d, of "freq n" a] obtain b0 where
    b0: "(freq n, b0 @ [a]) \<in> set (fl_link (freq n) a (freqToFreqList s))"
    and b0u: "\<And>b. (freq n, b) \<in> set (freqToFreqList s) \<Longrightarrow> b0 = b" by blast
  show "1 \<le> freq n' \<and> (\<exists>b. (freq n', b) \<in> set (freqToFreqList ?s) \<and> a' \<in> set b)"
  proof (cases "a' = a")
    case True
    with h n have "n' = n" by simp
    with f1 b0 True show ?thesis by auto
  next
    case False
    with h core_nm_linked[OF c, of k' a' n'] obtain b where
      b: "1 \<le> freq n'" "(freq n', b) \<in> set (freqToFreqList s)" "a' \<in> set b" by auto
    show ?thesis
    proof (cases "freq n' = freq n")
      case True
      with b b0u[of b] have "b0 = b" by simp
      with b0 b True show ?thesis by auto
    next
      case False
      with fl_link_old[OF d b(2), of "freq n" a] b show ?thesis by auto
    qed
  qed
next
  fix f' b' assume "(f', b') \<in> set (freqToFreqList ?s)"
  then have m: "(f', b') \<in> set (fl_link (freq n) a (freqToFreqList s))" by simp
  note d = core_distinct(3)[OF c]
  from d m show "1 \<le> f' \<and> distinct b'"
  proof (cases rule: fl_link_casesE)
    case (linked b0)
    with core_fl[OF c linked(3)] core_fl_node[OF c linked(3), of a] f1 show ?thesis by auto
  next
    case created
    with f1 show ?thesis by simp
  next
    case other
    with core_fl[OF c other(2)] show ?thesis by simp
  qed
next
  fix f' b' a' assume "(f', b') \<in> set (freqToFreqList ?s)" and a': "a' \<in> set b'"
  then have m: "(f', b') \<in> set (fl_link (freq n) a (freqToFreqList s))" by simp
  note d = core_distinct(3)[OF c]
  have an: "a < lfu_fresh s" using core_nm[OF c nm] by simp
  from d m show "a' \<notin> {} \<and> a' < lfu_fresh ?s \<and> (\<exists>n. lfu_store ?s a' = Some n \<and> freq n = f')"
  proof (cases rule: fl_link_casesE)
    case (linked b0)
    show ?thesis
    proof (cases "a' = a")
      case True
      with an n linked show ?thesis by simp
    next
      case False
      with a' linked have i: "a' \<in> set b0" by simp
      from core_fl_node[OF c linked(3) i] linked show ?thesis by simp
    qed
  next
    case created
    with a' an n show ?thesis by simp
  next
    case other
    from core_fl_node[OF c other(2) a'] show ?thesis by simp
  qed
qed (simp_all add: core_distinct[OF c])

lemma core_nm_bucket:
  assumes c: "lfu_core {} s" and nm: "(k, a) \<in> set (lfu_nodeMap s)" and n: "lfu_store s a = Some n"
  shows "freq n \<in> fst ` set (freqToFreqList s)"
proof -
  from core_nm_linked[OF c nm _ n] obtain b where "(freq n, b) \<in> set (freqToFreqList s)" by auto
  then show ?thesis by (rule rev_image_eqI) simp
qed

lemma relink_core:
  assumes c: "lfu_core {} s" and nm: "(k, a) \<in> set (lfu_nodeMap s)" and f: "1 \<le> f"
  shows "lfu_core {} (relink a f s)"
proof -
  from core_nm[OF c nm] obtain n where n: "lfu_store s a = Some n" by auto
  let ?s1 = "s\<lparr>freqToFreqList := fl_unlink a (freqToFreqList s)\<rparr>"
  let ?s2 = "?s1\<lparr>lfu_store := (lfu_store ?s1)(a \<mapsto> n\<lparr>freq := f\<rparr>)\<rparr>"
  have c1: "lfu_core {a} ?s1" using unlink_core[OF c, of a] by simp
  have c2: "lfu_core {a} ?s2" by (rule setfreq_core[OF c1]) (simp_all add: n)
  have "lfu_core {} (?s2\<lparr>freqToFreqList := fl_link (freq (n\<lparr>freq := f\<rparr>)) a (freqToFreqList ?s2)\<rparr>)"
    by (rule link_core[OF c2, of k]) (simp_all add: nm f)
  moreover have "relink a f s = ?s2\<lparr>freqToFreqList := fl_link (freq (n\<lparr>freq := f\<rparr>)) a (freqToFreqList ?s2)\<rparr>"
    by (simp add: relink_def n)
  ultimately show ?thesis by simp
qed

lemma relink_frame [simp]:
  "lfu_nodeMap (relink a f s) = lfu_nodeMap s"
  "lfu_capacity (relink a f s) = lfu_capacity s"
  "minFreq (relink a f s) = minFreq s"
  "maxAverageNum (relink a f s) = maxAverageNum s"
  "curAverageNum (relink a f s) = curAverageNum s"
  "curTotalNum (relink a f s) = curTotalNum s"
  "lfu_fresh (relink a f s) = lfu_fresh s"
  by (simp_all add: relink_def split: option.splits)

lemma relink_store:
  "lfu_store (relink a f s) a' =
     (if a' = a then map_option (\<lambda>n. n\<lparr>freq := f\<rparr>) (lfu_store s a) else lfu_store s a')"
  by (simp add: relink_def split: option.splits)

lemma relink_keys:
  "lfu_store s a \<noteq> None \<Longrightarrow>
   fst ` set (freqToFreqList (relink a f s)) = insert f (fst ` set (freqToFreqList s))"
proof -
  assume "lfu_store s a \<noteq> None"
  then obtain n where n: "lfu_store s a = Some n" by auto
  have "fst ` set (fl_unlink a (freqToFreqList s)) = fst ` set (freqToFreqList s)"
    using fl_unlink_keys[of a "freqToFreqList s"] by (metis set_map)
  then show ?thesis by (simp add: relink_def n fl_link_keys)
qed

lemma ageNode_relink:
  assumes c: "lfu_core {} s" and nm: "(k, a) \<in> set (lfu_nodeMap s)" and n: "lfu_store s a = Some n"
  shows "ageNode a s = Some (relink a (max 1 (freq n - maxAverageNum s sdiv 2)) s)"
proof -
  have r: "removeFromFreqList a s = Some (s\<lparr>freqToFreqList := fl_unlink a (freqToFreqList s)\<rparr>)"
    by (rule removeFromFreqList_eq[OF n core_nm_bucket[OF c nm n]])
  show ?thesis
    unfolding ageNode_def r
    by (simp add: n Let_def addToFreqList_eq relink_def max_def)
qed

lemma ageAll_ok:
  assumes "lfu_core {} s" "set m \<subseteq> set (lfu_nodeMap s)" "distinct (map snd m)"
  shows "\<exists>s'. ageAll m s = Some s' \<and> lfu_core {} s' \<and> lfu_frame s s' \<and>
           fst ` set (freqToFreqList s) \<subseteq> fst ` set (freqToFreqList s') \<and>
           (\<forall>a. lfu_store s' a =
                  (if a \<in> snd ` set m
                   then map_option (\<lambda>n. n\<lparr>freq := aged (maxAverageNum s sdiv 2) (freq n)\<rparr>)
                          (lfu_store s a)
                   else lfu_store s a))"
  using assms
proof (induction m arbitrary: s)
  case Nil
  then show ?case by (simp add: lfu_frame_def)
next
  case (Cons p m)
  obtain k a where p: "p = (k, a)" by (cases p)
  with Cons.prems have nm: "(k, a) \<in> set (lfu_nodeMap s)" by simp
  from core_nm[OF Cons.prems(1) nm] obtain n where n: "lfu_store s a = Some n" by auto
  let ?d = "maxAverageNum s sdiv 2"
  let ?s1 = "relink a (aged ?d (freq n)) s"
  have a1: "ageNode a s = Some ?s1"
    using ageNode_relink[OF Cons.prems(1) nm n] by (simp add: aged_def)
  have c1: "lfu_core {} ?s1"
    by (rule relink_core[OF Cons.prems(1) nm]) (simp add: aged_def)
  have sub: "set m \<subseteq> set (lfu_nodeMap ?s1)" using Cons.prems(2) by simp
  have dm: "distinct (map snd m)" using Cons.prems(3) by simp
  from Cons.IH[OF c1 sub dm] obtain s' where
    r: "ageAll m ?s1 = Some s'" and c': "lfu_core {} s'" and fr: "lfu_frame ?s1 s'"
    and ks: "fst ` set (freqToFreqList ?s1) \<subseteq> fst ` set (freqToFreqList s')"
    and st: "\<And>a'. lfu_store s' a' =
                  (if a' \<in> snd ` set m
                   then map_option (\<lambda>n. n\<lparr>freq := aged (maxAverageNum ?s1 sdiv 2) (freq n)\<rparr>)
                          (lfu_store ?s1 a')
                   else lfu_store ?s1 a')" by blast
  have anm: "a \<notin> snd ` set m" using Cons.prems(3) p by simp
  have "ageAll (p # m) s = Some s'" using p a1 r by simp
  moreover have "lfu_frame s s'" using fr by (simp add: lfu_frame_def)
  moreover have "fst ` set (freqToFreqList s) \<subseteq> fst ` set (freqToFreqList s')"
    using ks relink_keys[of s a "aged ?d (freq n)"] n by auto
  moreover have "\<forall>a'. lfu_store s' a' =
                  (if a' \<in> snd ` set (p # m)
                   then map_option (\<lambda>n. n\<lparr>freq := aged ?d (freq n)\<rparr>) (lfu_store s a')
                   else lfu_store s a')"
  proof
    fix a'
    show "lfu_store s' a' =
                  (if a' \<in> snd ` set (p # m)
                   then map_option (\<lambda>n. n\<lparr>freq := aged ?d (freq n)\<rparr>) (lfu_store s a')
                   else lfu_store s a')"
    proof (cases "a' = a")
      case True
      with anm st[of a] n p show ?thesis by (simp add: relink_store)
    next
      case False
      with st[of a'] p show ?thesis by (simp add: relink_store)
    qed
  qed
  ultimately show ?case using c' by blast
qed

lemma Min_insert_min:
  "finite F \<Longrightarrow> Min (insert (min a b) F) = Min (insert a (insert b F))"
  by (cases "F = {}") (simp_all add: min.assoc)

lemma foldl_min_freq:
  "foldl (\<lambda>m (f, b). if \<not> isEmpty b then min m f else m) m0 fl
     = Min (insert m0 {f. \<exists>b. (f, b) \<in> set fl \<and> b \<noteq> []})"
proof (induction fl arbitrary: m0)
  case Nil
  then show ?case by simp
next
  case (Cons p fl)
  obtain f b where p: "p = (f, b)" by (cases p)
  let ?F = "{f. \<exists>b. (f, b) \<in> set fl \<and> b \<noteq> []}"
  have fin: "finite ?F"
  proof (rule finite_subset)
    show "?F \<subseteq> fst ` set fl" by force
  qed simp
  show ?case
  proof (cases "b = []")
    case True
    then have "{f'. \<exists>b'. (f', b') \<in> set (p # fl) \<and> b' \<noteq> []} = ?F" using p by auto
    with True p Cons.IH[of m0] show ?thesis by (simp add: isEmpty_def)
  next
    case False
    then have "{f'. \<exists>b'. (f', b') \<in> set (p # fl) \<and> b' \<noteq> []} = insert f ?F" using p by auto
    with False p Cons.IH[of "min m0 f"] Min_insert_min[OF fin, of m0 f] show ?thesis
      by (simp add: isEmpty_def)
  qed
qed

lemma finite_nonempty_freqs: "finite (nonempty_freqs s)"
proof (rule finite_subset)
  show "nonempty_freqs s \<subseteq> fst ` set (freqToFreqList s)" by (force simp: nonempty_freqs_def)
qed simp

lemma updateMinFreq_minFreq:
  "minFreq (updateMinFreq s) =
     (if nonempty_freqs s = {} \<or> INT8_MAX \<le> Min (nonempty_freqs s) then 1
      else Min (nonempty_freqs s))"
proof -
  let ?F = "nonempty_freqs s"
  have m: "foldl (\<lambda>m (f, b). if \<not> isEmpty b then min m f else m) INT8_MAX (freqToFreqList s)
          = Min (insert INT8_MAX ?F)"
    unfolding foldl_min_freq nonempty_freqs_def ..
  show ?thesis
  proof (cases "?F = {}")
    case True
    with m show ?thesis by (simp add: updateMinFreq_def Let_def)
  next
    case False
    with finite_nonempty_freqs[of s] have "Min (insert INT8_MAX ?F) = min INT8_MAX (Min ?F)"
      by simp
    with m False show ?thesis by (auto simp: updateMinFreq_def Let_def min_def)
  qed
qed

lemma updateMinFreq_frame [simp]:
  "lfu_nodeMap (updateMinFreq s) = lfu_nodeMap s"
  "freqToFreqList (updateMinFreq s) = freqToFreqList s"
  "lfu_store (updateMinFreq s) = lfu_store s"
  "lfu_capacity (updateMinFreq s) = lfu_capacity s"
  "maxAverageNum (updateMinFreq s) = maxAverageNum s"
  "curAverageNum (updateMinFreq s) = curAverageNum s"
  "curTotalNum (updateMinFreq s) = curTotalNum s"
  "lfu_fresh (updateMinFreq s) = lfu_fresh s"
  by (simp_all add: updateMinFreq_def Let_def)

lemma lfu_core_cong:
  assumes "lfu_nodeMap s' = lfu_nodeMap s" "freqToFreqList s' = freqToFreqList s"
    "lfu_store s' = lfu_store s" "lfu_fresh s' = lfu_fresh s"
  shows "lfu_core X s' = lfu_core X s"
  unfolding lfu_core_def assms ..

lemma lfu_core_scalars [simp]:
  "lfu_core X (s\<lparr>minFreq := m\<rparr>) = lfu_core X s"
  "lfu_core X (s\<lparr>curTotalNum := t\<rparr>) = lfu_core X s"
  "lfu_core X (s\<lparr>curAverageNum := v\<rparr>) = lfu_core X s"
  "lfu_core X (updateMinFreq s) = lfu_core X s"
  by (rule lfu_core_cong; simp)+

lemma nonempty_freqs_keys: "nonempty_freqs s \<subseteq> fst ` set (freqToFreqList s)"
  by (force simp: nonempty_freqs_def)

lemma nonempty_freqs_ge1:
  assumes "lfu_core X s" "f \<in> nonempty_freqs s"
  shows "1 \<le> f"
proof -
  from assms(2) obtain b where "(f, b) \<in> set (freqToFreqList s)" by (auto simp: nonempty_freqs_def)
  from core_fl[OF assms(1) this] show ?thesis by simp
qed

lemma updateMinFreq_ok:
  assumes c: "lfu_core X s" and one: "1 \<in> fst ` set (freqToFreqList s)"
  shows "1 \<le> minFreq (updateMinFreq s)"
    and "minFreq (updateMinFreq s) \<in> fst ` set (freqToFreqList s)"
proof -
  let ?F = "nonempty_freqs s"
  have mn: "?F \<noteq> {} \<Longrightarrow> Min ?F \<in> ?F" using finite_nonempty_freqs[of s] by (rule Min_in)
  show "1 \<le> minFreq (updateMinFreq s)"
    using mn nonempty_freqs_ge1[OF c] by (auto simp: updateMinFreq_minFreq)
  show "minFreq (updateMinFreq s) \<in> fst ` set (freqToFreqList s)"
    using mn nonempty_freqs_keys[of s] one by (auto simp: updateMinFreq_minFreq)
qed

lemma handle_ok:
  assumes c: "lfu_core {} s" and ne: "lfu_nodeMap s \<noteq> []"
  shows "\<exists>s'. handleOverMaxAverageNum s = Some s' \<and> lfu_core {} s' \<and>
           lfu_nodeMap s' = lfu_nodeMap s \<and> lfu_capacity s' = lfu_capacity s \<and>
           maxAverageNum s' = maxAverageNum s \<and> curAverageNum s' = curAverageNum s \<and>
           curTotalNum s' = curTotalNum s \<and> lfu_fresh s' = lfu_fresh s \<and>
           fst ` set (freqToFreqList s) \<subseteq> fst ` set (freqToFreqList s') \<and>
           (\<forall>a. lfu_store s' a =
                  (if a \<in> snd ` set (lfu_nodeMap s)
                   then map_option (\<lambda>n. n\<lparr>freq := aged (maxAverageNum s sdiv 2) (freq n)\<rparr>)
                          (lfu_store s a)
                   else lfu_store s a)) \<and>
           minFreq s' =
             (if nonempty_freqs s' = {} \<or> INT8_MAX \<le> Min (nonempty_freqs s') then 1
              else Min (nonempty_freqs s'))"
proof -
  from ageAll_ok[OF c subset_refl core_distinct(2)[OF c]] obtain s1 where
    r: "ageAll (lfu_nodeMap s) s = Some s1" and c1: "lfu_core {} s1" and fr: "lfu_frame s s1"
    and ks: "fst ` set (freqToFreqList s) \<subseteq> fst ` set (freqToFreqList s1)"
    and st: "\<forall>a. lfu_store s1 a =
                  (if a \<in> snd ` set (lfu_nodeMap s)
                   then map_option (\<lambda>n. n\<lparr>freq := aged (maxAverageNum s sdiv 2) (freq n)\<rparr>)
                          (lfu_store s a)
                   else lfu_store s a)" by blast
  have h: "handleOverMaxAverageNum s = Some (updateMinFreq s1)"
    using ne r by (simp add: handleOverMaxAverageNum_def)
  have nf: "nonempty_freqs (updateMinFreq s1) = nonempty_freqs s1" by (simp add: nonempty_freqs_def)
  show ?thesis
    using h c1 fr ks st nf updateMinFreq_minFreq[of s1]
    by (simp add: lfu_frame_def)
qed

lemma same_payload_refl [simp]: "same_payload s s"
  by (simp add: same_payload_def)

lemma same_payload_trans: "same_payload s s1 \<Longrightarrow> same_payload s1 s2 \<Longrightarrow> same_payload s s2"
  by (simp add: same_payload_def)

lemma same_payload_scalars [simp]:
  "same_payload s (s'\<lparr>minFreq := m\<rparr>) = same_payload s s'"
  "same_payload s (s'\<lparr>curTotalNum := t\<rparr>) = same_payload s s'"
  "same_payload s (s'\<lparr>curAverageNum := v\<rparr>) = same_payload s s'"
  "same_payload (s\<lparr>minFreq := m\<rparr>) s' = same_payload s s'"
  "same_payload (s\<lparr>curTotalNum := t\<rparr>) s' = same_payload s s'"
  "same_payload (s\<lparr>curAverageNum := v\<rparr>) s' = same_payload s s'"
  by (simp_all add: same_payload_def)

lemma same_payload_relink: "same_payload s (relink a f s)"
  by (auto simp: same_payload_def relink_store option.map_comp o_def split: option.splits)

text \<open>What \<open>addFreqNum\<close> guarantees on a state whose index is not empty.\<close>

lemma addFreqNum_ok:
  assumes c: "lfu_core {} s" and ne: "lfu_nodeMap s \<noteq> []" and m1: "1 \<le> minFreq s"
    and one: "1 \<in> fst ` set (freqToFreqList s)"
  shows "\<exists>s'. addFreqNum s = Some s' \<and> lfu_core {} s' \<and>
           lfu_nodeMap s' = lfu_nodeMap s \<and> lfu_capacity s' = lfu_capacity s \<and>
           maxAverageNum s' = maxAverageNum s \<and> lfu_fresh s' = lfu_fresh s \<and>
           curTotalNum s' = curTotalNum s + 1 \<and>
           fst ` set (freqToFreqList s) \<subseteq> fst ` set (freqToFreqList s') \<and>
           1 \<le> minFreq s' \<and>
           (minFreq s \<in> fst ` set (freqToFreqList s) \<longrightarrow>
              minFreq s' \<in> fst ` set (freqToFreqList s')) \<and>
           same_payload s s'"
proof -
  let ?s1 = "s\<lparr>curTotalNum := curTotalNum s + 1\<rparr>"
  let ?s2 = "?s1\<lparr>curAverageNum := lfu_average (curTotalNum ?s1) (um_size (lfu_nodeMap ?s1))\<rparr>"
  have a: "addFreqNum s =
      (if curAverageNum ?s2 > maxAverageNum ?s2 then handleOverMaxAverageNum ?s2 else Some ?s2)"
    using ne by (simp add: addFreqNum_def Let_def)
  show ?thesis
  proof (cases "curAverageNum ?s2 > maxAverageNum ?s2")
    case False
    with a have "addFreqNum s = Some ?s2" by simp
    with c m1 show ?thesis by simp
  next
    case True
    have c2: "lfu_core {} ?s2" using c by simp
    have ne2: "lfu_nodeMap ?s2 \<noteq> []" using ne by simp
    from handle_ok[OF c2 ne2] obtain s' where
      h: "handleOverMaxAverageNum ?s2 = Some s'" and c': "lfu_core {} s'"
      and fr: "lfu_nodeMap s' = lfu_nodeMap ?s2" "lfu_capacity s' = lfu_capacity ?s2"
        "maxAverageNum s' = maxAverageNum ?s2" "curTotalNum s' = curTotalNum ?s2"
        "lfu_fresh s' = lfu_fresh ?s2"
      and ks: "fst ` set (freqToFreqList ?s2) \<subseteq> fst ` set (freqToFreqList s')"
      and st: "\<forall>a. lfu_store s' a =
                  (if a \<in> snd ` set (lfu_nodeMap ?s2)
                   then map_option (\<lambda>n. n\<lparr>freq := aged (maxAverageNum ?s2 sdiv 2) (freq n)\<rparr>)
                          (lfu_store ?s2 a)
                   else lfu_store ?s2 a)"
      and mf: "minFreq s' =
             (if nonempty_freqs s' = {} \<or> INT8_MAX \<le> Min (nonempty_freqs s') then 1
              else Min (nonempty_freqs s'))" by blast
    have one': "1 \<in> fst ` set (freqToFreqList s')" using ks one by auto
    have mn: "nonempty_freqs s' \<noteq> {} \<Longrightarrow> Min (nonempty_freqs s') \<in> nonempty_freqs s'"
      using finite_nonempty_freqs[of s'] by (rule Min_in)
    have m1': "1 \<le> minFreq s'"
      using mn nonempty_freqs_ge1[OF c'] by (auto simp: mf)
    have mk: "minFreq s' \<in> fst ` set (freqToFreqList s')"
      using mn nonempty_freqs_keys[of s'] one' by (auto simp: mf)
    have sp: "same_payload s s'"
      unfolding same_payload_def using st by (auto simp: option.map_comp o_def)
    from a True h have "addFreqNum s = Some s'" by simp
    with c' fr ks m1' mk sp show ?thesis by simp
  qed
qed

lemma bumped_cases:
  assumes n: "lfu_store s a = Some n"
  shows "bumped a s = relink a (freq n + 1) s \<or>
         bumped a s = (relink a (freq n + 1) s)\<lparr>minFreq := minFreq s + 1\<rparr>"
  by (simp add: bumped_def n Let_def)

lemma bumped_if:
  assumes n: "lfu_store s a = Some n"
  shows "bumped a s =
     (if freq n = minFreq s \<and>
         um_find (freq n) (freqToFreqList (relink a (freq n + 1) s)) = Some []
      then (relink a (freq n + 1) s)\<lparr>minFreq := minFreq s + 1\<rparr>
      else relink a (freq n + 1) s)"
  unfolding bumped_def n option.case Let_def ..

lemma bumpFreq_ok:
  assumes c: "lfu_core {} s" and nm: "(k, a) \<in> set (lfu_nodeMap s)"
  shows "bumpFreq a s = Some (bumped a s)"
proof -
  from core_nm[OF c nm] obtain n where n: "lfu_store s a = Some n" by auto
  have bk: "freq n \<in> fst ` set (freqToFreqList s)" by (rule core_nm_bucket[OF c nm n])
  let ?s1 = "s\<lparr>freqToFreqList := fl_unlink a (freqToFreqList s)\<rparr>"
  let ?s2 = "?s1\<lparr>lfu_store := (lfu_store ?s1)(a \<mapsto> n\<lparr>freq := freq n + 1\<rparr>)\<rparr>"
  let ?s3 = "relink a (freq n + 1) s"
  have r: "removeFromFreqList a s = Some ?s1"
    by (rule removeFromFreqList_eq[OF n bk])
  have n1: "lfu_store ?s1 a = Some n" using n by simp
  have n2: "lfu_store ?s2 a = Some (n\<lparr>freq := freq n + 1\<rparr>)" by simp
  have ad: "addToFreqList a ?s2 = Some ?s3"
    unfolding addToFreqList_eq[OF n2] by (simp add: relink_def n)
  have m3: "minFreq ?s3 = minFreq s" by simp
  have k3: "freq n \<in> fst ` set (freqToFreqList ?s3)"
    using relink_keys[of s a "freq n + 1"] n bk by simp
  then obtain b where b: "um_find (freq n) (freqToFreqList ?s3) = Some b"
    by (cases "um_find (freq n) (freqToFreqList ?s3)") (auto simp: um_find_None_iff)
  have e: "freq n + 1 - 1 = freq n" by simp
  have step: "bumpFreq a s =
      (if freq n = minFreq s
       then Some (if isEmpty b then ?s3\<lparr>minFreq := minFreq s + 1\<rparr> else ?s3)
       else Some ?s3)"
    unfolding bumpFreq_def r option.case n1 ad e m3 b ..
  have bd: "bumped a s =
      (if freq n = minFreq s \<and> b = [] then ?s3\<lparr>minFreq := minFreq s + 1\<rparr> else ?s3)"
    unfolding bumped_def n option.case Let_def b by simp
  show ?thesis unfolding step bd by (simp add: isEmpty_def)
qed

lemma bumped_frame [simp]:
  "lfu_nodeMap (bumped a s) = lfu_nodeMap s"
  "lfu_capacity (bumped a s) = lfu_capacity s"
  "maxAverageNum (bumped a s) = maxAverageNum s"
  "curAverageNum (bumped a s) = curAverageNum s"
  "curTotalNum (bumped a s) = curTotalNum s"
  "lfu_fresh (bumped a s) = lfu_fresh s"
  by (simp_all add: bumped_def Let_def split: option.splits)

lemma bumped_store:
  "lfu_store (bumped a s) a' =
     (if a' = a then map_option (\<lambda>n. n\<lparr>freq := freq n + 1\<rparr>) (lfu_store s a) else lfu_store s a')"
  by (simp add: bumped_def Let_def relink_store split: option.splits)

lemma bumped_fl:
  "lfu_store s a = Some n \<Longrightarrow> freqToFreqList (bumped a s) = freqToFreqList (relink a (freq n + 1) s)"
  by (simp add: bumped_def Let_def)

lemma bumped_ok:
  assumes c: "lfu_core {} s" and nm: "(k, a) \<in> set (lfu_nodeMap s)" and m1: "1 \<le> minFreq s"
    and mk: "minFreq s \<in> fst ` set (freqToFreqList s)"
  shows "lfu_core {} (bumped a s)" and "1 \<le> minFreq (bumped a s)"
    and "minFreq (bumped a s) \<in> fst ` set (freqToFreqList (bumped a s))"
    and "fst ` set (freqToFreqList s) \<subseteq> fst ` set (freqToFreqList (bumped a s))"
    and "same_payload s (bumped a s)"
proof -
  from core_nm[OF c nm] obtain n where n: "lfu_store s a = Some n" by auto
  from core_nm_linked[OF c nm _ n] have f1: "1 \<le> freq n" by simp
  let ?s3 = "relink a (freq n + 1) s"
  have c3: "lfu_core {} ?s3" by (rule relink_core[OF c nm]) (use f1 in simp)
  have ks: "fst ` set (freqToFreqList ?s3) = insert (freq n + 1) (fst ` set (freqToFreqList s))"
    using relink_keys[of s a "freq n + 1"] n by simp
  note bc = bumped_cases[OF n]
  show "lfu_core {} (bumped a s)" using c3 bc by auto
  show "1 \<le> minFreq (bumped a s)" using m1 bc by auto
  have fl: "freqToFreqList (bumped a s) = freqToFreqList ?s3" by (rule bumped_fl[OF n])
  show "fst ` set (freqToFreqList s) \<subseteq> fst ` set (freqToFreqList (bumped a s))"
    unfolding fl ks by auto
  show "minFreq (bumped a s) \<in> fst ` set (freqToFreqList (bumped a s))"
  proof (cases "freq n = minFreq s \<and> um_find (freq n) (freqToFreqList ?s3) = Some []")
    case True
    have "bumped a s = ?s3\<lparr>minFreq := minFreq s + 1\<rparr>"
      unfolding bumped_if[OF n] using True by (rule if_P)
    then have "minFreq (bumped a s) = freq n + 1" using True by simp
    then show ?thesis unfolding fl ks by simp
  next
    case False
    have "bumped a s = ?s3"
      unfolding bumped_if[OF n] using False by (rule if_not_P)
    then have "minFreq (bumped a s) = minFreq s" by simp
    with mk show ?thesis unfolding fl ks by simp
  qed
  show "same_payload s (bumped a s)"
    using same_payload_relink[of s a "freq n + 1"] bc by auto
qed

lemma size_t_of_int_nonzero:
  assumes "INT_MIN \<le> c" "c \<le> INT_MAX" "c \<noteq> 0"
  shows "size_t_of_int c \<noteq> 0"
proof
  assume "size_t_of_int c = 0"
  then have "c mod 2 ^ 64 = 0" by (simp add: size_t_of_int_def)
  then have "(2::int) ^ 64 dvd c" by (simp add: dvd_eq_mod_eq_0)
  then have "\<bar>2 ^ 64 :: int\<bar> \<le> \<bar>c\<bar>" using assms(3) by (rule dvd_imp_le_int[rotated])
  with assms show False by (simp add: INT_MIN_def INT_MAX_def)
qed

lemma erase_core:
  assumes c: "lfu_core X s"
  shows "lfu_core X (s\<lparr>lfu_nodeMap := um_erase k (lfu_nodeMap s)\<rparr>)" (is "lfu_core _ ?s")
proof (rule lfu_coreI)
  have sub: "set (lfu_nodeMap ?s) \<subseteq> set (lfu_nodeMap s)"
    by (auto simp: um_erase_def um_delete_set)
  show "distinct (map fst (lfu_nodeMap ?s))"
    using core_distinct(1)[OF c] by (simp add: um_erase_def distinct_delete)
  show "distinct (map snd (lfu_nodeMap ?s))"
    using core_distinct(2)[OF c] by (simp add: um_erase_def AList.delete_eq distinct_map_filter)
  show "distinct (map fst (freqToFreqList ?s))" using core_distinct(3)[OF c] by simp
  show "\<And>k' a. (k', a) \<in> set (lfu_nodeMap ?s) \<Longrightarrow>
        a < lfu_fresh ?s \<and> (\<exists>n. lfu_store ?s a = Some n \<and> key n = k')"
    using core_nm[OF c] sub by fastforce
  show "\<And>k' a n. (k', a) \<in> set (lfu_nodeMap ?s) \<Longrightarrow> a \<notin> X \<Longrightarrow> lfu_store ?s a = Some n \<Longrightarrow>
        1 \<le> freq n \<and> (\<exists>b. (freq n, b) \<in> set (freqToFreqList ?s) \<and> a \<in> set b)"
  proof -
    fix k' a n assume h: "(k', a) \<in> set (lfu_nodeMap ?s)" "a \<notin> X" "lfu_store ?s a = Some n"
    with sub have "(k', a) \<in> set (lfu_nodeMap s)" by blast
    from core_nm_linked[OF c this h(2)] h(3)
    show "1 \<le> freq n \<and> (\<exists>b. (freq n, b) \<in> set (freqToFreqList ?s) \<and> a \<in> set b)" by simp
  qed
  show "\<And>f b. (f, b) \<in> set (freqToFreqList ?s) \<Longrightarrow> 1 \<le> f \<and> distinct b"
    using core_fl[OF c] by simp
  show "\<And>f b a. (f, b) \<in> set (freqToFreqList ?s) \<Longrightarrow> a \<in> set b \<Longrightarrow>
        a \<notin> X \<and> a < lfu_fresh ?s \<and> (\<exists>n. lfu_store ?s a = Some n \<and> freq n = f)"
    using core_fl_node[OF c] by simp
qed

lemma core_shrink:
  assumes c: "lfu_core X s" and x: "\<And>a. a \<in> X \<Longrightarrow> a \<notin> snd ` set (lfu_nodeMap s)"
  shows "lfu_core {} s"
proof (rule lfu_coreI)
  show "\<And>k a n. (k, a) \<in> set (lfu_nodeMap s) \<Longrightarrow> a \<notin> {} \<Longrightarrow> lfu_store s a = Some n \<Longrightarrow>
        1 \<le> freq n \<and> (\<exists>b. (freq n, b) \<in> set (freqToFreqList s) \<and> a \<in> set b)"
  proof -
    fix k a n assume h: "(k, a) \<in> set (lfu_nodeMap s)" "lfu_store s a = Some n"
    then have "a \<in> snd ` set (lfu_nodeMap s)" by force
    with x have "a \<notin> X" by blast
    from core_nm_linked[OF c h(1) this h(2)]
    show "1 \<le> freq n \<and> (\<exists>b. (freq n, b) \<in> set (freqToFreqList s) \<and> a \<in> set b)" .
  qed
  show "\<And>f b a. (f, b) \<in> set (freqToFreqList s) \<Longrightarrow> a \<in> set b \<Longrightarrow>
        a \<notin> {} \<and> a < lfu_fresh s \<and> (\<exists>n. lfu_store s a = Some n \<and> freq n = f)"
    using core_fl_node[OF c] by simp
qed (use core_distinct[OF c] core_nm[OF c] core_fl[OF c] in blast)+

lemma alloc_core:
  assumes c: "lfu_core {} s" and k: "k \<notin> fst ` set (lfu_nodeMap s)"
  shows "lfu_core {lfu_fresh s} (lfu_alloc k v s)" (is "lfu_core _ ?s")
proof (rule lfu_coreI)
  have M: "lfu_nodeMap ?s = lfu_nodeMap s @ [(k, lfu_fresh s)]"
    using k by (simp add: lfu_alloc_def um_assign_def um_update_fresh)
  have lt: "\<And>k' a. (k', a) \<in> set (lfu_nodeMap s) \<Longrightarrow> a < lfu_fresh s"
    using core_nm[OF c] by blast
  then have fr: "lfu_fresh s \<notin> snd ` set (lfu_nodeMap s)" by force
  show "distinct (map fst (lfu_nodeMap ?s))" unfolding M using core_distinct(1)[OF c] k by simp
  show "distinct (map snd (lfu_nodeMap ?s))" unfolding M using core_distinct(2)[OF c] fr by simp
  show "distinct (map fst (freqToFreqList ?s))"
    using core_distinct(3)[OF c] by (simp add: lfu_alloc_def)
  show "\<And>k' a. (k', a) \<in> set (lfu_nodeMap ?s) \<Longrightarrow>
        a < lfu_fresh ?s \<and> (\<exists>n. lfu_store ?s a = Some n \<and> key n = k')"
  proof -
    fix k' a assume "(k', a) \<in> set (lfu_nodeMap ?s)"
    then consider "(k', a) \<in> set (lfu_nodeMap s)" | "k' = k" "a = lfu_fresh s" unfolding M by auto
    then show "a < lfu_fresh ?s \<and> (\<exists>n. lfu_store ?s a = Some n \<and> key n = k')"
    proof cases
      case 1
      with core_nm[OF c 1] lt[OF 1] show ?thesis by (auto simp: lfu_alloc_def)
    next
      case 2
      then show ?thesis by (simp add: lfu_alloc_def)
    qed
  qed
  show "\<And>k' a n. (k', a) \<in> set (lfu_nodeMap ?s) \<Longrightarrow> a \<notin> {lfu_fresh s} \<Longrightarrow>
        lfu_store ?s a = Some n \<Longrightarrow>
        1 \<le> freq n \<and> (\<exists>b. (freq n, b) \<in> set (freqToFreqList ?s) \<and> a \<in> set b)"
  proof -
    fix k' a n assume h: "(k', a) \<in> set (lfu_nodeMap ?s)" "a \<notin> {lfu_fresh s}" "lfu_store ?s a = Some n"
    then have m: "(k', a) \<in> set (lfu_nodeMap s)" unfolding M by auto
    from h have "lfu_store s a = Some n" by (simp add: lfu_alloc_def)
    from core_nm_linked[OF c m _ this]
    show "1 \<le> freq n \<and> (\<exists>b. (freq n, b) \<in> set (freqToFreqList ?s) \<and> a \<in> set b)"
      by (simp add: lfu_alloc_def)
  qed
  show "\<And>f b. (f, b) \<in> set (freqToFreqList ?s) \<Longrightarrow> 1 \<le> f \<and> distinct b"
    using core_fl[OF c] by (simp add: lfu_alloc_def)
  show "\<And>f b a. (f, b) \<in> set (freqToFreqList ?s) \<Longrightarrow> a \<in> set b \<Longrightarrow>
        a \<notin> {lfu_fresh s} \<and> a < lfu_fresh ?s \<and> (\<exists>n. lfu_store ?s a = Some n \<and> freq n = f)"
  proof -
    fix f b a assume "(f, b) \<in> set (freqToFreqList ?s)" "a \<in> set b"
    then have "(f, b) \<in> set (freqToFreqList s)" "a \<in> set b" by (simp_all add: lfu_alloc_def)
    from core_fl_node[OF c this]
    show "a \<notin> {lfu_fresh s} \<and> a < lfu_fresh ?s \<and> (\<exists>n. lfu_store ?s a = Some n \<and> freq n = f)"
      by (auto simp: lfu_alloc_def)
  qed
qed

lemma lfu_core_decrease [simp]: "lfu_core X (decreaseFreqNum num s) = lfu_core X s"
  by (rule lfu_core_cong) (simp_all add: decreaseFreqNum_def Let_def)

lemma decreaseFreqNum_frame [simp]:
  "lfu_nodeMap (decreaseFreqNum num s) = lfu_nodeMap s"
  "freqToFreqList (decreaseFreqNum num s) = freqToFreqList s"
  "lfu_store (decreaseFreqNum num s) = lfu_store s"
  "lfu_capacity (decreaseFreqNum num s) = lfu_capacity s"
  "maxAverageNum (decreaseFreqNum num s) = maxAverageNum s"
  "minFreq (decreaseFreqNum num s) = minFreq s"
  "lfu_fresh (decreaseFreqNum num s) = lfu_fresh s"
  by (simp_all add: decreaseFreqNum_def Let_def)

lemma in_keys_find: "k \<in> fst ` set m \<Longrightarrow> \<exists>v. um_find k m = Some v"
  by (cases "um_find k m") (auto simp: um_find_None_iff)

lemma kickOut_ok:
  assumes wf: "lfu_wf s" and ne: "lfu_nodeMap s \<noteq> []"
  shows "\<exists>s' k'. kickOut dk s = Some s' \<and> lfu_core {} s' \<and>
           lfu_nodeMap s' = um_erase k' (lfu_nodeMap s) \<and> minFreq s' = minFreq s \<and>
           fst ` set (freqToFreqList s') = fst ` set (freqToFreqList s) \<and>
           lfu_capacity s' = lfu_capacity s \<and> maxAverageNum s' = maxAverageNum s \<and>
           lfu_fresh s' = lfu_fresh s \<and> lfu_store s' = lfu_store s"
proof -
  from wf have c: "lfu_core {} s" by (simp add: lfu_wf_def)
  from wf ne have mk: "minFreq s \<in> fst ` set (freqToFreqList s)"
    and one: "1 \<in> fst ` set (freqToFreqList s)" by (simp_all add: lfu_wf_def)
  from in_keys_find[OF mk] obtain b where b: "um_find (minFreq s) (freqToFreqList s) = Some b" by blast
  from in_keys_find[OF one] obtain b1 where b1: "um_find 1 (freqToFreqList s) = Some b1" by blast
  show ?thesis
  proof (cases b)
    case Nil
    let ?s' = "decreaseFreqNum 1 (s\<lparr>lfu_nodeMap := um_erase dk (lfu_nodeMap s)\<rparr>)"
    have "kickOut dk s = Some ?s'" using b b1 Nil by (simp add: kickOut_def getFirstNode_def)
    moreover have "lfu_core {} ?s'" using erase_core[OF c, of dk] by simp
    ultimately show ?thesis by auto
  next
    case (Cons a rest)
    from b have bm: "(minFreq s, b) \<in> set (freqToFreqList s)"
      using core_distinct(3)[OF c] by (simp add: um_find_Some_iff)
    have ab: "a \<in> set b" using Cons by simp
    from core_fl_node[OF c bm ab] obtain n where n: "lfu_store s a = Some n" "freq n = minFreq s"
      by auto
    let ?s1 = "s\<lparr>freqToFreqList := fl_unlink a (freqToFreqList s)\<rparr>"
    have r: "removeFromFreqList a s = Some ?s1"
      by (rule removeFromFreqList_eq[OF n(1)]) (simp add: n(2) mk)
    let ?s2 = "?s1\<lparr>lfu_nodeMap := um_erase (key n) (lfu_nodeMap ?s1)\<rparr>"
    let ?s' = "decreaseFreqNum (freq n) ?s2"
    have ko: "kickOut dk s = Some ?s'"
      using b Cons r n by (simp add: kickOut_def getFirstNode_def)
    have c1: "lfu_core {a} ?s1" using unlink_core[OF c, of a] by simp
    have c2: "lfu_core {a} ?s2" by (rule erase_core[OF c1])
    have "lfu_core {} ?s2"
    proof (rule core_shrink[OF c2])
      fix a' assume "a' \<in> {a}"
      then have e: "a' = a" by simp
      show "a' \<notin> snd ` set (lfu_nodeMap ?s2)"
      proof
        assume "a' \<in> snd ` set (lfu_nodeMap ?s2)"
        then obtain k' where k': "(k', a) \<in> set (lfu_nodeMap ?s2)" using e by auto
        then have m: "(k', a) \<in> set (lfu_nodeMap s)" "k' \<noteq> key n"
          by (auto simp: um_erase_def um_delete_set)
        from core_nm[OF c m(1)] n m(2) show False by simp
      qed
    qed
    then have "lfu_core {} ?s'" by simp
    moreover have "fst ` set (freqToFreqList ?s') = fst ` set (freqToFreqList s)"
      using fl_unlink_keys[of a "freqToFreqList s"] by (simp flip: set_map)
    ultimately show ?thesis using ko by auto
  qed
qed

lemma getInternal_ok:
  assumes wf: "lfu_wf s" and nm: "(k, a) \<in> set (lfu_nodeMap s)" and n: "lfu_store s a = Some n"
  shows "\<exists>s'. getInternal a s = Some (val n, s') \<and> lfu_wf s' \<and>
           lfu_nodeMap s' = lfu_nodeMap s \<and> same_payload s s' \<and>
           lfu_capacity s' = lfu_capacity s \<and> maxAverageNum s' = maxAverageNum s \<and>
           curTotalNum s' = curTotalNum s + 1"
proof -
  from wf have c: "lfu_core {} s" and m1: "1 \<le> minFreq s" by (simp_all add: lfu_wf_def)
  from nm have ne: "lfu_nodeMap s \<noteq> []" by auto
  with wf have mk: "minFreq s \<in> fst ` set (freqToFreqList s)"
    and one: "1 \<in> fst ` set (freqToFreqList s)" by (simp_all add: lfu_wf_def)
  note bo = bumped_ok[OF c nm m1 mk]
  have ne4: "lfu_nodeMap (bumped a s) \<noteq> []" using ne by simp
  have one4: "1 \<in> fst ` set (freqToFreqList (bumped a s))" using bo(4) one by blast
  from addFreqNum_ok[OF bo(1) ne4 bo(2) one4] obtain s' where
    a: "addFreqNum (bumped a s) = Some s'" and c': "lfu_core {} s'"
    and fr: "lfu_nodeMap s' = lfu_nodeMap (bumped a s)" "lfu_capacity s' = lfu_capacity (bumped a s)"
       "maxAverageNum s' = maxAverageNum (bumped a s)" "curTotalNum s' = curTotalNum (bumped a s) + 1"
    and ks: "fst ` set (freqToFreqList (bumped a s)) \<subseteq> fst ` set (freqToFreqList s')"
    and m1': "1 \<le> minFreq s'"
    and mk': "minFreq (bumped a s) \<in> fst ` set (freqToFreqList (bumped a s)) \<longrightarrow>
              minFreq s' \<in> fst ` set (freqToFreqList s')"
    and sp: "same_payload (bumped a s) s'" by blast
  have g: "getInternal a s = Some (val n, s')"
    using bumpFreq_ok[OF c nm] a n by (simp add: getInternal_def)
  have "lfu_wf s'"
    unfolding lfu_wf_def using c' m1' mk' bo(3) ks one4 fr wf by (auto simp: lfu_wf_def)
  moreover have "same_payload s s'" using same_payload_trans[OF bo(5) sp] .
  ultimately show ?thesis using g fr by simp
qed

lemma putInternal_alloc:
  "putInternal dk k v s =
     (case (if um_size (lfu_nodeMap s) = size_t_of_int (lfu_capacity s)
            then kickOut dk s else Some s) of
        None \<Rightarrow> None
      | Some s1 \<Rightarrow>
          (case addToFreqList (lfu_fresh s1) (lfu_alloc k v s1) of
             None \<Rightarrow> None
           | Some s3 \<Rightarrow>
               (case addFreqNum s3 of
                  None \<Rightarrow> None
                | Some s4 \<Rightarrow> Some (s4\<lparr>minFreq := min (minFreq s4) 1\<rparr>))))"
  by (simp add: putInternal_def lfu_alloc_def Let_def split: option.splits)

lemma same_payload_store:
  "same_payload s s' \<Longrightarrow> lfu_store s a = Some n \<Longrightarrow>
   \<exists>n'. lfu_store s' a = Some n' \<and> key n' = key n \<and> val n' = val n"
  by (auto simp: same_payload_def dest!: spec[of _ a])

text \<open>After the allocation of a node for \<open>k\<close>: link, count, reset \<open>minFreq_\<close>.\<close>

lemma put_tail_ok:
  assumes c: "lfu_core {} s1" and k: "k \<notin> fst ` set (lfu_nodeMap s1)" and m1: "1 \<le> minFreq s1"
    and cap: "INT_MIN \<le> lfu_capacity s1" "lfu_capacity s1 \<le> INT_MAX"
  shows "\<exists>s3 s4 n. addToFreqList (lfu_fresh s1) (lfu_alloc k v s1) = Some s3 \<and>
           addFreqNum s3 = Some s4 \<and> lfu_wf (s4\<lparr>minFreq := min (minFreq s4) 1\<rparr>) \<and>
           um_find k (lfu_nodeMap s4) = Some (lfu_fresh s1) \<and>
           lfu_store s4 (lfu_fresh s1) = Some n \<and> val n = v \<and> key n = k \<and>
           lfu_capacity s4 = lfu_capacity s1 \<and> maxAverageNum s4 = maxAverageNum s1"
proof -
  let ?a = "lfu_fresh s1"
  let ?s2 = "lfu_alloc k v s1"
  let ?s3 = "?s2\<lparr>freqToFreqList := fl_link 1 ?a (freqToFreqList ?s2)\<rparr>"
  have n2: "lfu_store ?s2 ?a = Some \<lparr>freq = 1, key = k, val = v\<rparr>" by (simp add: lfu_alloc_def)
  have M: "lfu_nodeMap ?s2 = lfu_nodeMap s1 @ [(k, ?a)]"
    using k by (simp add: lfu_alloc_def um_assign_def um_update_fresh)
  have nm2: "(k, ?a) \<in> set (lfu_nodeMap ?s2)" unfolding M by simp
  have c2: "lfu_core {?a} ?s2" by (rule alloc_core[OF c k])
  have ad: "addToFreqList ?a ?s2 = Some ?s3" using addToFreqList_eq[OF n2] by simp
  have c3: "lfu_core {} ?s3" using link_core[OF c2 nm2 n2] by simp
  have ne3: "lfu_nodeMap ?s3 \<noteq> []" using M by simp
  have m13: "1 \<le> minFreq ?s3" using m1 by (simp add: lfu_alloc_def)
  have one3: "1 \<in> fst ` set (freqToFreqList ?s3)" by (simp add: fl_link_keys)
  from addFreqNum_ok[OF c3 ne3 m13 one3] obtain s4 where
    a: "addFreqNum ?s3 = Some s4" and c4: "lfu_core {} s4"
    and fr: "lfu_nodeMap s4 = lfu_nodeMap ?s3" "lfu_capacity s4 = lfu_capacity ?s3"
       "maxAverageNum s4 = maxAverageNum ?s3"
    and ks: "fst ` set (freqToFreqList ?s3) \<subseteq> fst ` set (freqToFreqList s4)"
    and m14: "1 \<le> minFreq s4"
    and sp: "same_payload ?s3 s4" by blast
  have n3: "lfu_store ?s3 ?a = Some \<lparr>freq = 1, key = k, val = v\<rparr>" using n2 by simp
  from same_payload_store[OF sp n3] obtain n where
    n: "lfu_store s4 ?a = Some n" "key n = k" "val n = v" by auto
  have one4: "1 \<in> fst ` set (freqToFreqList s4)" using ks one3 by blast
  have mn: "min (minFreq s4) 1 = 1" using m14 by simp
  have "lfu_wf (s4\<lparr>minFreq := min (minFreq s4) 1\<rparr>)"
    unfolding lfu_wf_def mn using c4 one4 fr cap by (simp add: lfu_alloc_def)
  moreover have "um_find k (lfu_nodeMap s4) = Some ?a"
    unfolding fr by (simp add: lfu_alloc_def um_find_def um_assign_def update_conv')
  ultimately show ?thesis using ad a n fr by (auto simp: lfu_alloc_def)
qed

lemma putInternal_ok:
  assumes wf: "lfu_wf s" and kn: "um_find k (lfu_nodeMap s) = None" and c0: "lfu_capacity s \<noteq> 0"
  shows "\<exists>s' a n. putInternal dk k v s = Some s' \<and> lfu_wf s' \<and>
           um_find k (lfu_nodeMap s') = Some a \<and> lfu_store s' a = Some n \<and> val n = v \<and>
           key n = k \<and> lfu_capacity s' = lfu_capacity s \<and> maxAverageNum s' = maxAverageNum s"
proof -
  from wf have c: "lfu_core {} s" and m1: "1 \<le> minFreq s"
    and cap: "INT_MIN \<le> lfu_capacity s" "lfu_capacity s \<le> INT_MAX" by (simp_all add: lfu_wf_def)
  from kn have k: "k \<notin> fst ` set (lfu_nodeMap s)" by (simp add: um_find_None_iff)
  have "\<exists>s1. (if um_size (lfu_nodeMap s) = size_t_of_int (lfu_capacity s)
            then kickOut dk s else Some s) = Some s1 \<and> lfu_core {} s1 \<and>
            k \<notin> fst ` set (lfu_nodeMap s1) \<and> minFreq s1 = minFreq s \<and>
            lfu_capacity s1 = lfu_capacity s \<and> maxAverageNum s1 = maxAverageNum s"
  proof (cases "um_size (lfu_nodeMap s) = size_t_of_int (lfu_capacity s)")
    case False
    with c k show ?thesis by simp
  next
    case True
    with size_t_of_int_nonzero[OF cap c0] have ne: "lfu_nodeMap s \<noteq> []" by (auto simp: um_size_def)
    from kickOut_ok[OF wf ne, of dk] obtain s1 k' where
      ko: "kickOut dk s = Some s1" and c1: "lfu_core {} s1"
      and e: "lfu_nodeMap s1 = um_erase k' (lfu_nodeMap s)" "minFreq s1 = minFreq s"
        "lfu_capacity s1 = lfu_capacity s" "maxAverageNum s1 = maxAverageNum s" by blast
    have "k \<notin> fst ` set (lfu_nodeMap s1)"
      unfolding e using k by (auto simp: um_erase_def um_delete_set)
    with True ko c1 e show ?thesis by simp
  qed
  then obtain s1 where
    s1: "(if um_size (lfu_nodeMap s) = size_t_of_int (lfu_capacity s)
            then kickOut dk s else Some s) = Some s1"
    and c1: "lfu_core {} s1" and k1: "k \<notin> fst ` set (lfu_nodeMap s1)"
    and e1: "minFreq s1 = minFreq s" "lfu_capacity s1 = lfu_capacity s"
            "maxAverageNum s1 = maxAverageNum s" by blast
  have m11: "1 \<le> minFreq s1" using m1 e1 by simp
  have cap1: "INT_MIN \<le> lfu_capacity s1" "lfu_capacity s1 \<le> INT_MAX" using cap e1 by simp_all
  from put_tail_ok[OF c1 k1 m11 cap1, of v] obtain s3 s4 n where
    t: "addToFreqList (lfu_fresh s1) (lfu_alloc k v s1) = Some s3" "addFreqNum s3 = Some s4"
       "lfu_wf (s4\<lparr>minFreq := min (minFreq s4) 1\<rparr>)"
       "um_find k (lfu_nodeMap s4) = Some (lfu_fresh s1)"
       "lfu_store s4 (lfu_fresh s1) = Some n" "val n = v" "key n = k"
       "lfu_capacity s4 = lfu_capacity s1" "maxAverageNum s4 = maxAverageNum s1" by blast
  have "putInternal dk k v s = Some (s4\<lparr>minFreq := min (minFreq s4) 1\<rparr>)"
    unfolding putInternal_alloc s1 using t(1,2) by simp
  with t e1 show ?thesis by simp
qed

lemma lfu_put_ok:
  assumes wf: "lfu_wf s" and c0: "lfu_capacity s \<noteq> 0"
  shows "\<exists>s' a n. lfu_put dk k v s = Some s' \<and> lfu_wf s' \<and>
           um_find k (lfu_nodeMap s') = Some a \<and> lfu_store s' a = Some n \<and> val n = v \<and>
           lfu_capacity s' = lfu_capacity s \<and> maxAverageNum s' = maxAverageNum s"
proof (cases "um_find k (lfu_nodeMap s)")
  case None
  from putInternal_ok[OF wf None c0, of dk v] None c0 show ?thesis
    by (auto simp: lfu_put_def)
next
  case (Some a)
  from wf have c: "lfu_core {} s" by (simp add: lfu_wf_def)
  from Some have nm: "(k, a) \<in> set (lfu_nodeMap s)"
    using core_distinct(1)[OF c] by (simp add: um_find_Some_iff)
  from core_nm[OF c nm] obtain n where n: "lfu_store s a = Some n" by auto
  let ?s0 = "s\<lparr>lfu_store := (lfu_store s)(a \<mapsto> n\<lparr>val := v\<rparr>)\<rparr>"
  have wf0: "lfu_wf ?s0" using wf setval_core[OF c n, of v] by (simp add: lfu_wf_def)
  have nm0: "(k, a) \<in> set (lfu_nodeMap ?s0)" using nm by simp
  have n0: "lfu_store ?s0 a = Some (n\<lparr>val := v\<rparr>)" by simp
  from getInternal_ok[OF wf0 nm0 n0] obtain s' where
    g: "getInternal a ?s0 = Some (val (n\<lparr>val := v\<rparr>), s')" and wf': "lfu_wf s'"
    and fr: "lfu_nodeMap s' = lfu_nodeMap ?s0" "lfu_capacity s' = lfu_capacity ?s0"
      "maxAverageNum s' = maxAverageNum ?s0"
    and sp: "same_payload ?s0 s'" by blast
  from same_payload_store[OF sp n0] obtain n' where n': "lfu_store s' a = Some n'" "val n' = v"
    by auto
  have "lfu_put dk k v s = Some s'" using Some n g c0 by (simp add: lfu_put_def)
  with wf' fr n' Some show ?thesis by simp
qed

lemma lfu_get_ok:
  assumes wf: "lfu_wf s"
  shows "\<exists>r s'. lfu_get k s = Some (r, s') \<and> lfu_wf s' \<and>
           r = (case um_find k (lfu_nodeMap s) of
                  None \<Rightarrow> None
                | Some a \<Rightarrow> map_option val (lfu_store s a)) \<and>
           (\<forall>a. um_find k (lfu_nodeMap s) = Some a \<longrightarrow> lfu_store s a \<noteq> None) \<and>
           lfu_capacity s' = lfu_capacity s \<and> maxAverageNum s' = maxAverageNum s"
proof (cases "um_find k (lfu_nodeMap s)")
  case None
  with wf show ?thesis by (simp add: lfu_get_def)
next
  case (Some a)
  from wf have c: "lfu_core {} s" by (simp add: lfu_wf_def)
  from Some have nm: "(k, a) \<in> set (lfu_nodeMap s)"
    using core_distinct(1)[OF c] by (simp add: um_find_Some_iff)
  from core_nm[OF c nm] obtain n where n: "lfu_store s a = Some n" by auto
  from getInternal_ok[OF wf nm n] obtain s' where
    g: "getInternal a s = Some (val n, s')" and wf': "lfu_wf s'"
    and fr: "lfu_capacity s' = lfu_capacity s" "maxAverageNum s' = maxAverageNum s" by blast
  have "lfu_get k s = Some (Some (val n), s')" using Some g by (simp add: lfu_get_def)
  with wf' fr Some n show ?thesis by simp
qed

lemma LFUCache_new_wf:
  "INT_MIN \<le> C \<Longrightarrow> C \<le> INT_MAX \<Longrightarrow> lfu_wf (LFUCache_new C M)"
  by (simp add: lfu_wf_def lfu_core_def LFUCache_new_def INT8_MAX_def)

lemma purge_wf: "lfu_wf s \<Longrightarrow> lfu_wf (purge s)"
  by (simp add: lfu_wf_def lfu_core_def purge_def)

lemma lfu_put_zero: "lfu_capacity s = 0 \<Longrightarrow> lfu_put dk k v s = Some s"
  by (simp add: lfu_put_def)

lemma lfu_run_wf:
  "lfu_wf s \<Longrightarrow> \<exists>s'. lfu_run dk ops s = Some s' \<and> lfu_wf s' \<and>
      lfu_capacity s' = lfu_capacity s \<and> maxAverageNum s' = maxAverageNum s"
proof (induction ops arbitrary: s)
  case Nil
  then show ?case by simp
next
  case (Cons op ops)
  show ?case
  proof (cases op)
    case (Put k v)
    have "\<exists>s1. lfu_put dk k v s = Some s1 \<and> lfu_wf s1 \<and>
           lfu_capacity s1 = lfu_capacity s \<and> maxAverageNum s1 = maxAverageNum s"
    proof (cases "lfu_capacity s = 0")
      case True
      with Cons.prems show ?thesis by (simp add: lfu_put_zero)
    next
      case False
      from lfu_put_ok[OF Cons.prems False, of dk k v] show ?thesis by blast
    qed
    then obtain s1 where p: "lfu_put dk k v s = Some s1" and w1: "lfu_wf s1"
      and e: "lfu_capacity s1 = lfu_capacity s" "maxAverageNum s1 = maxAverageNum s" by blast
    from Cons.IH[OF w1] p Put e show ?thesis by simp
  next
    case (Get k)
    from lfu_get_ok[OF Cons.prems, of k] obtain r s1 where
      g: "lfu_get k s = Some (r, s1)" and w1: "lfu_wf s1"
      and e: "lfu_capacity s1 = lfu_capacity s" "maxAverageNum s1 = maxAverageNum s" by blast
    from Cons.IH[OF w1] g Get e show ?thesis by simp
  qed
qed

section \<open>LFU: capacity guard, eviction, aging and purge\<close>

lemma lfu_average_int:
  "lfu_average t n = ((t mod 2 ^ 64) div int n + 2 ^ 31) mod 2 ^ 32 - 2 ^ 31"
  by (simp add: lfu_average_def int_of_size_t_def size_t_of_int_def zdiv_int)

lemmas lfu_eval = lfu_put_def lfu_get_def putInternal_def kickOut_def getInternal_def bumpFreq_def
  addFreqNum_def decreaseFreqNum_def handleOverMaxAverageNum_def ageNode_def updateMinFreq_def
  addToFreqList_def removeFromFreqList_def fl_unlink_def lfu_average_int getFirstNode_def isEmpty_def
  LFUCache_new_def purge_def um_find_def um_assign_def um_erase_def um_size_def um_keys_def
  size_t_of_int_def INT8_MAX_def freq_of_def Let_def

text \<open>
  Claim C2 (capacity at most 0 makes put a no-op and get a miss, for LRU and LFU).
  \<^verbatim>\<open>LRUCache::put\<close> returns early when \<^verbatim>\<open>capacity_ <= 0\<close>, but \<^verbatim>\<open>LFUCache::put\<close> returns early
  only when \<^verbatim>\<open>capacity_ == 0\<close>. With capacity \<open>-1\<close> the comparison
  \<^verbatim>\<open>nodeMap_.size() == capacity_\<close> converts \<open>-1\<close> to \<open>2^64 - 1\<close>, no eviction is attempted, and
  the entry is inserted: on a fresh LFU cache of capacity \<open>-1\<close>, \<open>put(k, v)\<close> followed by
  \<open>get(k)\<close> is a hit returning \<open>v\<close>, for every key, value and default key.
\<close>
theorem lfu_negative_capacity_put_inserts:
  "map_option fst (case lfu_put dk k v (LFUCache_new (- 1) 10) of
                     None \<Rightarrow> None
                   | Some s \<Rightarrow> lfu_get k s) = Some (Some v)"
  by (simp add: lfu_eval)

lemma lru_put_nonpositive: "lru_capacity s \<le> 0 \<Longrightarrow> put k v s = Some s"
  by (simp add: put_def)

lemma lru_get_empty: "lru_nodeMap s = [] \<Longrightarrow> get k s = Some (None, s)"
  by (simp add: get_def um_find_def)

lemma lru_nonpositive_results:
  "C \<le> 0 \<Longrightarrow>
   lru_results ops (LRUCache_new C) =
     Some (replicate (length (filter (\<lambda>x. case x of Get _ \<Rightarrow> True | _ \<Rightarrow> False) ops)) None)"
proof (induction ops)
  case Nil then show ?case by simp
next
  case (Cons op ops)
  then show ?case
    by (cases op) (simp_all add: put_def get_def um_find_def LRUCache_new_def)
qed

lemma lfu_get_empty: "lfu_nodeMap s = [] \<Longrightarrow> lfu_get k s = Some (None, s)"
  by (simp add: lfu_get_def um_find_def)

lemma lfu_zero_run:
  "lfu_run dk ops (LFUCache_new 0 M) = Some (LFUCache_new 0 M)"
proof (induction ops)
  case Nil then show ?case by simp
next
  case (Cons op ops)
  then show ?case
    by (cases op) (simp_all add: lfu_put_def lfu_get_def um_find_def LFUCache_new_def)
qed

lemma purge_put:
  assumes "lfu_capacity s \<noteq> 0" "size_t_of_int (lfu_capacity s) \<noteq> 0"
  shows "\<exists>s'. lfu_put dk k v (purge s) = Some s' \<and> curTotalNum s' = curTotalNum s + 1 \<and>
           curAverageNum s' = lfu_average (curTotalNum s + 1) 1"
  using assms
  by (simp add: lfu_put_def putInternal_def kickOut_def addFreqNum_def handleOverMaxAverageNum_def
      ageNode_def updateMinFreq_def addToFreqList_def removeFromFreqList_def fl_unlink_def
      purge_def um_find_def um_assign_def um_size_def Let_def)

lemma empties_Suc: "empties (Suc m) = empties m @ [(int m + 1, [])]"
  by (simp add: empties_def)

lemma map_of_empties: "map_of (empties m) f = (if 1 \<le> f \<and> f \<le> int m then Some [] else None)"
proof (induction m)
  case 0
  show ?case by (simp add: empties_def)
next
  case (Suc m)
  then show ?case by (auto simp: empties_Suc map_add_def)
qed

lemma keys_empties: "f \<in> fst ` set (empties m) \<longleftrightarrow> 1 \<le> f \<and> f \<le> int m"
proof -
  have "f \<in> fst ` set (empties m) \<longleftrightarrow> map_of (empties m) f \<noteq> None"
    by (simp add: map_of_eq_None_iff)
  then show ?thesis unfolding map_of_empties by simp
qed

lemma unlink_empties: "fl_unlink a (empties m) = empties m"
  by (simp add: fl_unlink_def empties_def)

lemma update_append_notin:
  "f \<notin> fst ` set xs \<Longrightarrow> AList.update f v (xs @ ys) = xs @ AList.update f v ys"
  by (induction xs) auto

lemma lfu_average_one: "0 \<le> t \<Longrightarrow> t < 2 ^ 31 \<Longrightarrow> lfu_average t 1 = t"
  by (simp add: lfu_average_int)

lemma hot_put: "lfu_put dk k v (LFUCache_new 1 252) = Some (hot_state k v 0)"
  by (simp add: lfu_eval hot_state_def empties_def)

lemma fl_link_fresh: "f \<notin> fst ` set xs \<Longrightarrow> fl_link f a xs = xs @ [(f, [a])]"
  by (simp add: fl_link_def um_update_fresh map_of_eq_None_iff[THEN iffD2])

lemma um_find_last: "f \<notin> fst ` set xs \<Longrightarrow> um_find f (xs @ [(f, b)]) = Some b"
  by (simp add: um_find_def map_add_def map_of_eq_None_iff[THEN iffD2])

lemma unlink_hot: "fl_unlink 0 (empties n @ [(f, [0])]) = empties (n) @ [(f, [])]"
  by (simp add: fl_unlink_def empties_def)

lemma hot_bumped:
  "bumped 0 (hot_state k v n) =
     (hot_state k v (Suc n))\<lparr>curAverageNum := int n + 1, curTotalNum := int n + 1\<rparr>"
proof -
  let ?s = "hot_state k v n"
  let ?n0 = "\<lparr>freq = int n + 1, key = k, val = v\<rparr>"
  have st: "lfu_store ?s 0 = Some ?n0" by (simp add: hot_state_def)
  have mf: "minFreq ?s = int n + 1" by (simp add: hot_state_def)
  have k2: "2 + int n \<notin> fst ` set (empties (Suc n))" by (simp add: keys_empties)
  have rl: "relink 0 (2 + int n) ?s =
      ?s\<lparr>freqToFreqList := empties (Suc n) @ [(2 + int n, [0])],
         lfu_store := [0 \<mapsto> \<lparr>freq = 2 + int n, key = k, val = v\<rparr>]\<rparr>"
    unfolding relink_def st option.case
    by (simp add: hot_state_def unlink_hot empties_Suc[symmetric] fl_link_fresh[OF k2])
  have fd: "um_find (int n + 1) (empties (Suc n) @ [(2 + int n, [0::nat])]) = Some []"
    by (simp add: um_find_def map_add_def map_of_empties)
  have bm: "bumped 0 ?s = (relink 0 (2 + int n) ?s)\<lparr>minFreq := 2 + int n\<rparr>"
    unfolding bumped_if[OF st] by (simp add: rl fd mf)
  show ?thesis unfolding bm rl by (simp add: hot_state_def)
qed

lemma hot_wf_get:
  assumes wf: "lfu_wf (hot_state k v n)" and n: "n \<le> 250"
  shows "lfu_get k (hot_state k v n) = Some (Some v, hot_state k v (Suc n))"
proof -
  let ?s = "hot_state k v n"
  let ?n0 = "\<lparr>freq = int n + 1, key = k, val = v\<rparr>"
  from wf have c: "lfu_core {} ?s" by (simp add: lfu_wf_def)
  have nm: "(k, 0) \<in> set (lfu_nodeMap ?s)" by (simp add: hot_state_def)
  have st: "lfu_store ?s 0 = Some ?n0" by (simp add: hot_state_def)
  have av: "lfu_average (int n + 2) (Suc 0) = int n + 2"
    using n lfu_average_one[of "int n + 2"] by simp
  have ad: "addFreqNum (bumped 0 ?s) = Some (hot_state k v (Suc n))"
    unfolding hot_bumped using n
    by (simp add: addFreqNum_def Let_def hot_state_def um_size_def av add.commute)
  have gi: "getInternal 0 ?s = Some (v, hot_state k v (Suc n))"
    unfolding getInternal_def st option.case bumpFreq_ok[OF c nm] ad by simp
  have fk: "um_find k (lfu_nodeMap ?s) = Some 0" by (simp add: hot_state_def um_find_def)
  show ?thesis unfolding lfu_get_def fk option.case gi by simp
qed

lemma lfu_run_append:
  "lfu_run dk (xs @ ys) s = (case lfu_run dk xs s of None \<Rightarrow> None | Some s1 \<Rightarrow> lfu_run dk ys s1)"
proof (induction xs arbitrary: s)
  case Nil then show ?case by simp
next
  case (Cons op xs)
  then show ?case by (cases op) (simp_all split: option.splits)
qed

lemma hot_wf0: "lfu_wf (hot_state k v 0)"
proof -
  have "lfu_wf (LFUCache_new 1 252 :: ('a, 'b) LFUCache)"
    by (rule LFUCache_new_wf) (simp_all add: INT_MIN_def INT_MAX_def)
  from lfu_put_ok[OF this, of undefined k v] show ?thesis
    unfolding hot_put by (auto simp: LFUCache_new_def)
qed

lemma hot_run:
  "n \<le> 251 \<Longrightarrow>
   lfu_run dk (replicate n (Get k)) (hot_state k v 0) = Some (hot_state k v n)"
proof (induction n)
  case 0
  show ?case by simp
next
  case (Suc n)
  then have r: "lfu_run dk (replicate n (Get k)) (hot_state k v 0) = Some (hot_state k v n)"
    by simp
  from lfu_run_wf[OF hot_wf0, of dk "replicate n (Get k)" k v] r
  have wf: "lfu_wf (hot_state k v n)" by simp
  from Suc.prems have n: "n \<le> 250" by simp
  have "replicate (Suc n) (Get k :: ('a, 'b) cache_op) = replicate n (Get k) @ [Get k]"
    by (simp add: replicate_append_same)
  then show ?case
    by (simp only: lfu_run_append r option.case) (simp add: hot_wf_get[OF wf n])
qed

lemma distinct_empties: "distinct (map fst (empties m))"
  by (simp add: empties_def distinct_map inj_on_def o_def)

lemma empties_snd: "(f, b) \<in> set (empties m) \<Longrightarrow> b = []"
  by (auto simp: empties_def)

lemma nonempty_aged: "nonempty_freqs (aged_state k v) = {127}"
proof -
  have m: "(127, []) \<in> set (empties 253)" by (simp add: empties_def image_iff)
  have "set (fl_link 127 0 (empties 253)) =
          insert (127, [] @ [0]) {p \<in> set (empties 253). fst p \<noteq> 127}"
    by (rule fl_link_set_Some[OF distinct_empties m])
  then show ?thesis
    by (auto simp: nonempty_freqs_def aged_state_def dest: empties_snd)
qed

lemma hot_last:
  assumes wf: "lfu_wf (hot_state k v 251)"
  shows "lfu_get k (hot_state k v 251) = Some (Some v, aged_state k v)"
proof -
  let ?s = "hot_state k v 251"
  let ?h = "hot_state k v 252"
  from wf have c: "lfu_core {} ?s" and m1: "1 \<le> minFreq ?s"
    and mk: "minFreq ?s \<in> fst ` set (freqToFreqList ?s)"
    by (simp_all add: lfu_wf_def, simp add: hot_state_def)
  have nm: "(k, 0) \<in> set (lfu_nodeMap ?s)" by (simp add: hot_state_def)
  have st: "lfu_store ?s 0 = Some \<lparr>freq = 252, key = k, val = v\<rparr>" by (simp add: hot_state_def)
  have mf: "minFreq ?s = 252" by (simp add: hot_state_def)
  have cb: "lfu_core {} (bumped 0 ?s)" by (rule bumped_ok(1)[OF c nm m1 mk])
  have hb: "bumped 0 ?s = ?h\<lparr>curAverageNum := 252, curTotalNum := 252\<rparr>"
    using hot_bumped[of k v 251] by simp
  have ch: "lfu_core {} ?h" using cb unfolding hb by simp
  have av: "lfu_average 253 (Suc 0) = 253" by (simp add: lfu_average_int)
  have a1: "addFreqNum (bumped 0 ?s) = handleOverMaxAverageNum ?h"
    unfolding hb by (simp add: addFreqNum_def Let_def hot_state_def um_size_def av)
  have e253: "empties 253 = empties 252 @ [(253, [])]"
    using empties_Suc[of 252] by simp
  have nmh: "(k, 0) \<in> set (lfu_nodeMap ?h)" by (simp add: hot_state_def)
  have sth: "lfu_store ?h 0 = Some \<lparr>freq = 253, key = k, val = v\<rparr>" by (simp add: hot_state_def)
  have ag: "ageNode 0 ?h = Some (relink 0 127 ?h)"
    using ageNode_relink[OF ch nmh sth] by (simp add: hot_state_def)
  have rh: "relink 0 127 ?h = (aged_state k v)\<lparr>minFreq := 253\<rparr>"
    unfolding relink_def sth option.case
    by (simp add: hot_state_def aged_state_def unlink_hot e253)
  have um: "updateMinFreq ((aged_state k v)\<lparr>minFreq := 253\<rparr>) = aged_state k v"
  proof -
    let ?t = "(aged_state k v)\<lparr>minFreq := 253\<rparr>"
    have nf: "nonempty_freqs ?t = {127}" using nonempty_aged[of k v] by (simp add: nonempty_freqs_def)
    have "minFreq (updateMinFreq ?t) = 1"
      unfolding updateMinFreq_minFreq nf by (simp add: INT8_MAX_def)
    moreover have "updateMinFreq ?t = ?t\<lparr>minFreq := minFreq (updateMinFreq ?t)\<rparr>"
      by (simp add: updateMinFreq_def Let_def)
    ultimately show ?thesis by (simp add: aged_state_def)
  qed
  have ho: "handleOverMaxAverageNum ?h = Some (aged_state k v)"
    unfolding handleOverMaxAverageNum_def
    using ag um by (simp add: hot_state_def[of k v 252, THEN arg_cong[of _ _ lfu_nodeMap]] rh)
  have gi: "getInternal 0 ?s = Some (v, aged_state k v)"
    unfolding getInternal_def st option.case bumpFreq_ok[OF c nm] a1 ho by simp
  have fk: "um_find k (lfu_nodeMap ?s) = Some 0" by (simp add: hot_state_def um_find_def)
  show ?thesis unfolding lfu_get_def fk option.case gi by simp
qed

lemma aged_find1: "um_find 1 (fl_link 127 0 (empties 253)) = Some []"
  by (simp add: um_find_def fl_link_def update_conv' map_of_empties)

lemma aged_put:
  assumes "k2 \<noteq> k" "dk \<noteq> k"
  shows "map_option (\<lambda>s. map fst (lfu_nodeMap s)) (lfu_put dk k2 v2 (aged_state k v)) = Some [k, k2]"
proof -
  let ?t = "aged_state k v"
  have f: "um_find 1 (freqToFreqList ?t) = Some []" by (simp add: aged_state_def aged_find1)
  have mf: "minFreq ?t = 1" by (simp add: aged_state_def)
  let ?s1 = "decreaseFreqNum 1 ?t"
  have ko: "kickOut dk ?t = Some ?s1"
    unfolding kickOut_def mf f option.case getFirstNode_def list.case
    using assms by (simp add: aged_state_def um_erase_def)
  have av: "lfu_average 253 (Suc (Suc 0)) = 126" by (simp add: lfu_average_int)
  have s1: "?s1 = ?t\<lparr>curTotalNum := 252, curAverageNum := lfu_average 252 (Suc 0)\<rparr>"
    by (simp add: decreaseFreqNum_def Let_def aged_state_def um_size_def)
  let ?s3 = "(lfu_alloc k2 v2 ?s1)\<lparr>freqToFreqList := fl_link 1 1 (freqToFreqList ?t)\<rparr>"
  have ad: "addToFreqList (lfu_fresh ?s1) (lfu_alloc k2 v2 ?s1) = Some ?s3"
    using addToFreqList_eq[of "lfu_alloc k2 v2 ?s1" "lfu_fresh ?s1" "\<lparr>freq = 1, key = k2, val = v2\<rparr>"]
    by (simp add: lfu_alloc_def aged_state_def)
  have nm3: "lfu_nodeMap ?s3 = [(k, 0), (k2, 1)]"
    using assms by (simp add: lfu_alloc_def um_assign_def aged_state_def)
  have af: "\<exists>s4. addFreqNum ?s3 = Some s4 \<and> lfu_nodeMap s4 = [(k, 0), (k2, 1)]"
    using assms
    by (simp add: addFreqNum_def Let_def lfu_alloc_def decreaseFreqNum_def aged_state_def
        um_size_def um_assign_def av)
  then obtain s4 where s4: "addFreqNum ?s3 = Some s4" "lfu_nodeMap s4 = [(k, 0), (k2, 1)]" by blast
  have sz: "um_size (lfu_nodeMap ?t) = size_t_of_int (lfu_capacity ?t)"
    by (simp add: aged_state_def um_size_def size_t_of_int_def)
  have pi: "putInternal dk k2 v2 ?t = Some (s4\<lparr>minFreq := min (minFreq s4) 1\<rparr>)"
    unfolding putInternal_alloc if_P[OF sz] ko option.case ad s4(1) ..
  have fk: "um_find k2 (lfu_nodeMap ?t) = None" using assms by (simp add: aged_state_def um_find_def)
  have "lfu_put dk k2 v2 ?t = Some (s4\<lparr>minFreq := min (minFreq s4) 1\<rparr>)"
    unfolding lfu_put_def fk option.case pi by (simp add: aged_state_def)
  then show ?thesis using s4 by simp
qed

lemma hot_full_run:
  "lfu_run dk (Put k v # replicate 252 (Get k)) (LFUCache_new 1 252) = Some (aged_state k v)"
proof -
  have r: "lfu_run dk (replicate 251 (Get k)) (hot_state k v 0) = Some (hot_state k v 251)"
    by (rule hot_run) simp
  from lfu_run_wf[OF hot_wf0, of dk "replicate 251 (Get k)" k v] r
  have wf: "lfu_wf (hot_state k v 251)" by simp
  have "replicate (Suc 251) (Get k :: ('a, 'b) cache_op) = replicate 251 (Get k) @ [Get k]"
    by (simp only: replicate_Suc replicate_append_same)
  then have e: "replicate 252 (Get k :: ('a, 'b) cache_op) = replicate 251 (Get k) @ [Get k]"
    by simp
  show ?thesis
    unfolding e lfu_run.simps hot_put option.case lfu_run_append r
    by (simp add: hot_last[OF wf])
qed

text \<open>
  Claim C3 (a put on a full LFU cache evicts a key of minimum frequency).
  \<^verbatim>\<open>updateMinFreq\<close> starts its scan from \<^verbatim>\<open>INT8_MAX\<close> (127) and falls back to 1 when no
  non-empty bucket lies below that. On a cache of capacity 1 and \<open>maxAverageNum = 252\<close>,
  \<open>put(A, 1)\<close> followed by 252 hits on \<open>A\<close> triggers an age-down that leaves \<open>A\<close> at frequency
  127 and \<open>minFreq_ = 1\<close>, with bucket 1 existing but empty. The next \<open>put(B, 2)\<close> finds the
  cache full, \<^verbatim>\<open>kickOut\<close> takes the tail sentinel of the empty bucket 1 as its victim, and
  nothing is evicted: the index of the capacity-1 cache then holds both \<open>A\<close> and \<open>B\<close>.
\<close>
theorem lfu_stale_minFreq_no_eviction:
  "map_option (\<lambda>s. (map fst (lfu_nodeMap s)))
     (lfu_run [] (Put ''A'' (1::int) # replicate 252 (Get ''A'') @ [Put ''B'' 2])
        (LFUCache_new 1 252))
   = Some [''A'', ''B'']"
proof -
  have e: "Put ''A'' (1::int) # replicate 252 (Get ''A'') @ [Put ''B'' 2]
           = (Put ''A'' 1 # replicate 252 (Get ''A'')) @ [Put ''B'' 2]" by simp
  have "lfu_run [] (Put ''A'' (1::int) # replicate 252 (Get ''A'') @ [Put ''B'' 2])
          (LFUCache_new 1 252) = lfu_put [] ''B'' 2 (aged_state ''A'' 1)"
    unfolding e lfu_run_append hot_full_run option.case by (simp split: option.splits)
  then show ?thesis using aged_put[of "''B''" "''A''" "[]" 2 1] by simp
qed



lemma freq_of_Some:
  assumes c: "lfu_core X s"
  shows "freq_of s k = Some f \<longleftrightarrow>
           (\<exists>a n. (k, a) \<in> set (lfu_nodeMap s) \<and> lfu_store s a = Some n \<and> freq n = f)"
proof
  assume "freq_of s k = Some f"
  then show "\<exists>a n. (k, a) \<in> set (lfu_nodeMap s) \<and> lfu_store s a = Some n \<and> freq n = f"
    using core_distinct(1)[OF c]
    by (auto simp: freq_of_def um_find_def split: option.splits)
next
  assume "\<exists>a n. (k, a) \<in> set (lfu_nodeMap s) \<and> lfu_store s a = Some n \<and> freq n = f"
  then obtain a n where an: "(k, a) \<in> set (lfu_nodeMap s)" "lfu_store s a = Some n" "freq n = f"
    by blast
  from an(1) have "um_find k (lfu_nodeMap s) = Some a"
    using core_distinct(1)[OF c] by (simp add: um_find_Some_iff)
  with an show "freq_of s k = Some f" by (simp add: freq_of_def)
qed






text \<open>
  Claim C10 (purge). \<^verbatim>\<open>purge\<close> empties the key index and the bucket map, so a following
  \<open>get\<close> of any key misses and leaves the state as it is; \<open>curTotalNum\<close>, \<open>curAverageNum\<close>,
  \<open>minFreq\<close>, \<open>maxAverageNum\<close> and the capacity keep their values, and the retained total
  enters the average computed by the first \<open>put\<close> after the purge.
\<close>
theorem lfu_purge_keeps_counters:
  assumes "lfu_capacity s \<noteq> 0" "size_t_of_int (lfu_capacity s) \<noteq> 0"
  shows "lfu_nodeMap (purge s) = [] \<and> freqToFreqList (purge s) = [] \<and>
         lfu_get k (purge s) = Some (None, purge s) \<and>
         curTotalNum (purge s) = curTotalNum s \<and> curAverageNum (purge s) = curAverageNum s \<and>
         minFreq (purge s) = minFreq s \<and> maxAverageNum (purge s) = maxAverageNum s \<and>
         lfu_capacity (purge s) = lfu_capacity s \<and>
         (\<exists>s'. lfu_put dk k' v (purge s) = Some s' \<and> curTotalNum s' = curTotalNum s + 1 \<and>
               curAverageNum s' = lfu_average (curTotalNum s + 1) 1)"
  using purge_put[OF assms, of dk k' v]
  by (simp add: purge_def lfu_get_def um_find_def)

theorem lfu_purge_keeps_counters_witness:
  "lfu_capacity warm_state \<noteq> 0 \<and> size_t_of_int (lfu_capacity warm_state) \<noteq> 0 \<and>
   lfu_nodeMap (purge warm_state) = [] \<and> freqToFreqList (purge warm_state) = [] \<and>
   lfu_get ''A'' (purge warm_state) = Some (None, purge warm_state) \<and>
   curTotalNum (purge warm_state) = 2 \<and> curAverageNum (purge warm_state) = 2 \<and>
   minFreq (purge warm_state) = 4 \<and> maxAverageNum (purge warm_state) = 2 \<and>
   lfu_capacity (purge warm_state) = 1 \<and>
   (\<exists>s'. lfu_put [] ''B'' 9 (purge warm_state) = Some s' \<and> curTotalNum s' = 3 \<and>
         curAverageNum s' = 3)"
proof -
  have h: "lfu_capacity warm_state \<noteq> 0" "size_t_of_int (lfu_capacity warm_state) \<noteq> 0"
    by (simp_all add: warm_state_def size_t_of_int_def)
  have a: "lfu_average (curTotalNum warm_state + 1) 1 = 3"
    by (simp add: warm_state_def lfu_average_int)
  from lfu_purge_keeps_counters[OF h, of "''A''" "[]" "''B''" 9] a h
  show ?thesis by (simp add: warm_state_def)
qed

text \<open>A hit bumps the frequency by exactly one before the aging check.\<close>

lemma lfu_hit_bumps:
  assumes wf: "lfu_wf s" and f: "freq_of s k = Some f"
  shows "\<exists>a n s1. um_find k (lfu_nodeMap s) = Some a \<and> lfu_store s a = Some n \<and>
           bumpFreq a s = Some s1 \<and> freq_of s1 k = Some (f + 1) \<and>
           getInternal a s = map_option (\<lambda>s2. (val n, s2)) (addFreqNum s1) \<and>
           lfu_get k s = map_option (\<lambda>s2. (Some (val n), s2)) (addFreqNum s1)"
proof -
  from wf have c: "lfu_core {} s" and m1: "1 \<le> minFreq s" by (simp_all add: lfu_wf_def)
  from f obtain a n where an: "(k, a) \<in> set (lfu_nodeMap s)" "lfu_store s a = Some n" "freq n = f"
    unfolding freq_of_Some[OF c] by blast
  then have ne: "lfu_nodeMap s \<noteq> []" by auto
  with wf have mk: "minFreq s \<in> fst ` set (freqToFreqList s)" by (simp add: lfu_wf_def)
  have fk: "um_find k (lfu_nodeMap s) = Some a"
    using an(1) core_distinct(1)[OF c] by (simp add: um_find_Some_iff)
  have b: "bumpFreq a s = Some (bumped a s)" by (rule bumpFreq_ok[OF c an(1)])
  have cb: "lfu_core {} (bumped a s)" by (rule bumped_ok(1)[OF c an(1) m1 mk])
  have "lfu_store (bumped a s) a = Some (n\<lparr>freq := f + 1\<rparr>)" using an by (simp add: bumped_store)
  then have fb: "freq_of (bumped a s) k = Some (f + 1)"
    unfolding freq_of_Some[OF cb] using an(1) by auto
  have gi: "getInternal a s = map_option (\<lambda>s2. (val n, s2)) (addFreqNum (bumped a s))"
    by (simp add: getInternal_def an(2) b)
  have "lfu_get k s = map_option (\<lambda>s2. (Some (val n), s2)) (addFreqNum (bumped a s))"
    by (simp add: lfu_get_def fk gi option.map_comp o_def)
  with fk an(2) b fb gi show ?thesis by blast
qed

section \<open>LRU-K admission and the put/get round trip\<close>

lemmas lruk_eval = lruk_get_def lruk_put_def LRUKCache_new_def get_value_def remove_def
  int_of_size_t_def main_lookup_def

lemma lruk_get_keeps_main:
  "lruk_get k c = Some (r, c') \<Longrightarrow> lru_nodeMap (lruk_main c') = lru_nodeMap (lruk_main c)"
  by (auto simp: lruk_get_def get_value_def get_def moveToMostRecent_def removeNode_def
        insertNode_def Let_def split: option.splits if_splits prod.splits)

lemma lruk_put_below_threshold:
  assumes "lruk_put k v c = Some c'" "um_find k (lru_nodeMap (lruk_main c)) = None"
    "get_value 0 k (historyList c) = Some (hc, h1)" "int_of_size_t hc + 1 < k_threshold c"
  shows "lru_nodeMap (lruk_main c') = lru_nodeMap (lruk_main c)"
proof -
  have g: "get_value [] k (lruk_main c) = Some ([], lruk_main c)"
    using assms(2) by (simp add: get_value_def get_def)
  from assms(1) show ?thesis
    unfolding lruk_put_def g option.case prod.case assms(3) Let_def
    using assms(4) by (auto split: option.splits)
qed

text \<open>
  Claim C7 (LRU-K admission, threshold 3, main capacity 2, history capacity \<open>H\<close> at least 1).
  Starting empty: after two \<open>get(A)\<close> the key is absent from the main cache; after a third
  \<open>get(A)\<close> it is still absent, since \<^verbatim>\<open>LRUKCache::get\<close> only counts the access and never
  writes the main cache; a \<open>put(A, v)\<close> issued as the third access admits \<open>A\<close> with value
  \<open>v\<close>; a \<open>put(A, v)\<close> issued as the first or second access does not. In general
  \<open>get\<close> leaves the main index unchanged, and a \<open>put\<close> of a key that is absent from the main
  cache and whose history count stays below the threshold leaves the main index unchanged.
\<close>
theorem lruk_admission:
  assumes "1 \<le> H" "H \<le> INT_MAX"
  shows "map_option (main_lookup A) (lruk_run [Get A, Get A] (LRUKCache_new 2 H 3)) = Some None \<and>
         map_option (main_lookup A) (lruk_run [Get A, Get A, Get A] (LRUKCache_new 2 H 3))
           = Some None \<and>
         map_option (main_lookup A) (lruk_run [Get A, Get A, Put A v] (LRUKCache_new 2 H 3))
           = Some (Some v) \<and>
         map_option (main_lookup A) (lruk_run [Put A v] (LRUKCache_new 2 H 3)) = Some None \<and>
         map_option (main_lookup A) (lruk_run [Get A, Put A v] (LRUKCache_new 2 H 3))
           = Some None \<and>
         (\<forall>k c r c'. lruk_get k c = Some (r, c') \<longrightarrow>
            lru_nodeMap (lruk_main c') = lru_nodeMap (lruk_main c)) \<and>
         (\<forall>k w c c' hc h1.
            lruk_put k w c = Some c' \<and> um_find k (lru_nodeMap (lruk_main c)) = None \<and>
            get_value 0 k (historyList c) = Some (hc, h1) \<and>
            int_of_size_t hc + 1 < k_threshold c \<longrightarrow>
            lru_nodeMap (lruk_main c') = lru_nodeMap (lruk_main c))"
  (is "?P1 \<and> ?P2 \<and> ?P3 \<and> ?P4 \<and> ?P5 \<and> ?P6 \<and> ?P7")
proof -
  have 1: "map_option (main_lookup A) (lruk_run [Get A, Get A] (LRUKCache_new 2 H 3)) = Some None"
    using assms by (simp add: lruk_eval lru_eval INT_MAX_def)
  have 2: "map_option (main_lookup A) (lruk_run [Get A, Get A, Get A] (LRUKCache_new 2 H 3))
           = Some None"
    using assms by (simp add: lruk_eval lru_eval INT_MAX_def)
  have 3: "map_option (main_lookup A) (lruk_run [Get A, Get A, Put A v] (LRUKCache_new 2 H 3))
           = Some (Some v)"
    using assms by (simp add: lruk_eval lru_eval INT_MAX_def)
  have 4: "map_option (main_lookup A) (lruk_run [Put A v] (LRUKCache_new 2 H 3)) = Some None"
    using assms by (simp add: lruk_eval lru_eval INT_MAX_def)
  have 5: "map_option (main_lookup A) (lruk_run [Get A, Put A v] (LRUKCache_new 2 H 3))
           = Some None"
    using assms by (simp add: lruk_eval lru_eval INT_MAX_def)
  have 6: ?P6 by (intro allI impI) (rule lruk_get_keeps_main)
  have 7: ?P7 by (intro allI impI, elim conjE) (rule lruk_put_below_threshold)
  from 1 2 3 4 5 6 7 show ?thesis by (intro conjI)
qed

theorem lruk_admission_witness:
  "(1::int) \<le> 2 \<and> 2 \<le> INT_MAX \<and>
   map_option (main_lookup ''A'') (lruk_run [Get ''A'', Get ''A''] (LRUKCache_new 2 2 3))
     = Some None \<and>
   map_option (main_lookup ''A'') (lruk_run [Get ''A'', Get ''A'', Get ''A''] (LRUKCache_new 2 2 3))
     = Some None \<and>
   map_option (main_lookup ''A'')
     (lruk_run [Get ''A'', Get ''A'', Put ''A'' ''v''] (LRUKCache_new 2 2 3)) = Some (Some ''v'') \<and>
   map_option (main_lookup ''A'') (lruk_run [Put ''A'' ''v''] (LRUKCache_new 2 2 3)) = Some None \<and>
   map_option (main_lookup ''A'') (lruk_run [Get ''A'', Put ''A'' ''v''] (LRUKCache_new 2 2 3))
     = Some None"
proof -
  have h: "(1::int) \<le> 2" "2 \<le> INT_MAX" by (simp_all add: INT_MAX_def)
  from lruk_admission[OF h, of "''A''" "''v''"] h show ?thesis
    by (elim conjE) (intro conjI; assumption)
qed

theorem lruk_third_get_counterexample:
  "map_option (main_lookup ''A'')
     (lruk_run [Get ''A'', Get ''A'', Get ''A''] (LRUKCache_new 2 2 3)) = Some None"
  by (simp add: lruk_eval lru_eval)

lemma lru_put_get:
  assumes C: "1 \<le> C" "C \<le> INT_MAX" and i: "lru_inv C tr s"
  shows "\<exists>s1 s2. put k w s = Some s1 \<and> lru_inv C (tr @ [k]) s1 \<and>
           get k s1 = Some (Some w, s2)"
proof -
  from put_inv[OF C i, of k w] obtain s1 a n where
    p: "put k w s = Some s1" "lru_inv C (tr @ [k]) s1"
       "um_find k (lru_nodeMap s1) = Some a" "store s1 a = Some n" "node_value n = w" by blast
  from get_inv[OF p(2), of k] p(3-5) obtain s2 where "get k s1 = Some (Some w, s2)" by auto
  with p show ?thesis by blast
qed

lemma lfu_put_get:
  assumes wf: "lfu_wf u" and c0: "lfu_capacity u \<noteq> 0"
  shows "\<exists>u1 u2. lfu_put dk k w u = Some u1 \<and> lfu_wf u1 \<and>
           lfu_capacity u1 = lfu_capacity u \<and> lfu_get k u1 = Some (Some w, u2)"
proof -
  from lfu_put_ok[OF wf c0, of dk k w] obtain u1 a n where
    p: "lfu_put dk k w u = Some u1" "lfu_wf u1" "um_find k (lfu_nodeMap u1) = Some a"
       "lfu_store u1 a = Some n" "val n = w" "lfu_capacity u1 = lfu_capacity u" by blast
  from lfu_get_ok[OF p(2), of k] p(3-5) obtain u2 where "lfu_get k u1 = Some (Some w, u2)"
    by auto
  with p show ?thesis by blast
qed

text \<open>
  Claim C9 (put followed by get). For an LRU cache and an LFU cache constructed with a
  capacity \<open>C\<close> between 1 and \<^verbatim>\<open>INT_MAX\<close>, after any workload: \<open>put(k, v)\<close> followed by
  \<open>get(k)\<close> is a hit returning \<open>v\<close>, and \<open>put(k, v1); put(k, v2); get(k)\<close> is a hit
  returning \<open>v2\<close>. All operations involved return.
\<close>
theorem put_get_roundtrip:
  assumes C: "1 \<le> C" "C \<le> INT_MAX"
  shows "(\<exists>s tr s1 s2. lru_run ops (LRUCache_new C) = Some (s, tr) \<and>
            put k v s = Some s1 \<and> get k s1 = Some (Some v, s2)) \<and>
         (\<exists>s tr s1 s2 s3. lru_run ops (LRUCache_new C) = Some (s, tr) \<and>
            put k v1 s = Some s1 \<and> put k v2 s1 = Some s2 \<and> get k s2 = Some (Some v2, s3)) \<and>
         (\<exists>s s1 s2. lfu_run dk ops (LFUCache_new C M) = Some s \<and>
            lfu_put dk k v s = Some s1 \<and> lfu_get k s1 = Some (Some v, s2)) \<and>
         (\<exists>s s1 s2 s3. lfu_run dk ops (LFUCache_new C M) = Some s \<and>
            lfu_put dk k v1 s = Some s1 \<and> lfu_put dk k v2 s1 = Some s2 \<and>
            lfu_get k s2 = Some (Some v2, s3))"
  (is "?L1 \<and> ?L2 \<and> ?F1 \<and> ?F2")
proof -
  from run_inv[OF C init_inv, of ops] obtain s tr where
    r: "lru_run ops (LRUCache_new C) = Some (s, tr)" and i: "lru_inv C tr s" by auto
  from lru_put_get[OF C i, of k v] r have L1: ?L1 by blast
  from lru_put_get[OF C i, of k v1] obtain t1 where
    t1: "put k v1 s = Some t1" "lru_inv C (tr @ [k]) t1" by blast
  from lru_put_get[OF C t1(2), of k v2] t1 r have L2: ?L2 by blast
  have "lfu_wf (LFUCache_new C M)"
    using C by (intro LFUCache_new_wf) (simp_all add: INT_MIN_def)
  from lfu_run_wf[OF this, of dk ops] obtain u where
    u: "lfu_run dk ops (LFUCache_new C M) = Some u" "lfu_wf u" "lfu_capacity u = C"
    by (auto simp: LFUCache_new_def)
  from u(3) C have c0: "lfu_capacity u \<noteq> 0" by simp
  from lfu_put_get[OF u(2) c0, of dk k v] u(1) have F1: ?F1 by blast
  from lfu_put_get[OF u(2) c0, of dk k v1] obtain u1 where
    u1: "lfu_put dk k v1 u = Some u1" "lfu_wf u1" "lfu_capacity u1 = lfu_capacity u" by blast
  from u1(3) c0 have c1: "lfu_capacity u1 \<noteq> 0" by simp
  from lfu_put_get[OF u1(2) c1, of dk k v2] u1 u(1) have F2: ?F2 by blast
  from L1 L2 F1 F2 show ?thesis by (intro conjI)
qed

theorem put_get_roundtrip_witness:
  "(1::int) \<le> 2 \<and> 2 \<le> INT_MAX \<and>
   (\<exists>s tr s1 s2. lru_run [Put ''B'' 7, Get ''A''] (LRUCache_new 2) = Some (s, tr) \<and>
      put ''A'' (1::int) s = Some s1 \<and> get ''A'' s1 = Some (Some 1, s2)) \<and>
   (\<exists>s s1 s2 s3. lfu_run [] [Put ''B'' 7, Get ''A''] (LFUCache_new 2 10) = Some s \<and>
      lfu_put [] ''A'' (1::int) s = Some s1 \<and> lfu_put [] ''A'' 2 s1 = Some s2 \<and>
      lfu_get ''A'' s2 = Some (Some 2, s3))"
proof -
  have h: "(1::int) \<le> 2" "2 \<le> INT_MAX" by (simp_all add: INT_MAX_def)
  from put_get_roundtrip[OF h, of "[Put ''B'' 7, Get ''A'']" "''A''" 1 1 2 "[]" 10] h
  show ?thesis by (elim conjE) (intro conjI; assumption)
qed

theorem put_get_roundtrip_counterexample:
  "map_option (\<lambda>(r, c). (r, main_lookup ''k'' c))
     (case lruk_put ''k'' ''v'' (LRUKCache_new 2 2 3) of
        None \<Rightarrow> None
      | Some c \<Rightarrow> lruk_get ''k'' c) = Some ([], None)"
  by (simp add: lruk_eval lru_eval)

section \<open>ARC: well-formedness of the LRU half and the capacity sum\<close>

lemma remove1_last: "distinct xs \<Longrightarrow> xs \<noteq> [] \<Longrightarrow> remove1 (last xs) xs = butlast xs"
  by (induction xs) auto

lemma rotate_last_set: "xs \<noteq> [] \<Longrightarrow> insert (last xs) (set (butlast xs)) = set xs"
  by (induction xs) auto

lemma rotate_last_distinct:
  "distinct xs \<Longrightarrow> xs \<noteq> [] \<Longrightarrow> last xs \<notin> set (butlast xs) \<and> distinct (butlast xs)"
  by (induction xs) (auto dest: in_set_butlastD)

lemma arc_wfI:
  assumes "distinct (mainList s)" "ghostList s = []"
    "distinct (map fst (mainCache s))" "distinct (map fst (ghostCache s))"
    "\<And>a. a \<in> set (mainList s) \<Longrightarrow> a < arc_fresh s \<and> arc_store s a \<noteq> None"
    "\<And>k a. (k, a) \<in> set (mainCache s) \<Longrightarrow>
       a \<in> set (mainList s) \<and> (\<exists>n. arc_store s a = Some n \<and> arc_key n = k)"
    "\<And>k a. (k, a) \<in> set (ghostCache s) \<Longrightarrow>
       a \<in> set (mainList s) \<and> (\<exists>n. arc_store s a = Some n \<and> arc_key n = k)"
    "\<And>k a k'. (k, a) \<in> set (mainCache s) \<Longrightarrow> (k', a) \<notin> set (ghostCache s)"
  shows "arc_wf s"
  unfolding arc_wf_def using assms by blast

lemma wf_basic:
  assumes "arc_wf s"
  shows "distinct (mainList s)" "ghostList s = []"
    "distinct (map fst (mainCache s))" "distinct (map fst (ghostCache s))"
  using assms by (simp_all add: arc_wf_def)

lemma wf_list:
  "arc_wf s \<Longrightarrow> a \<in> set (mainList s) \<Longrightarrow> a < arc_fresh s \<and> (\<exists>n. arc_store s a = Some n)"
  unfolding arc_wf_def by blast

lemma wf_main:
  "arc_wf s \<Longrightarrow> (k, a) \<in> set (mainCache s) \<Longrightarrow>
   a \<in> set (mainList s) \<and> (\<exists>n. arc_store s a = Some n \<and> arc_key n = k)"
  unfolding arc_wf_def by blast

lemma wf_ghost:
  "arc_wf s \<Longrightarrow> (k, a) \<in> set (ghostCache s) \<Longrightarrow>
   a \<in> set (mainList s) \<and> (\<exists>n. arc_store s a = Some n \<and> arc_key n = k)"
  unfolding arc_wf_def by blast

lemma wf_disj: "arc_wf s \<Longrightarrow> (k, a) \<in> set (mainCache s) \<Longrightarrow> (k', a) \<notin> set (ghostCache s)"
  unfolding arc_wf_def by blast

lemma wf_relist:
  assumes wf: "arc_wf s" and d: "distinct xs" and e: "set xs = set (mainList s)"
  shows "arc_wf (s\<lparr>mainList := xs\<rparr>)"
  using wf d e unfolding arc_wf_def by simp

lemma wf_restore:
  assumes wf: "arc_wf s" and n: "arc_store s a = Some n" and k: "arc_key n' = arc_key n"
  shows "arc_wf (s\<lparr>arc_store := (arc_store s)(a \<mapsto> n')\<rparr>)"
proof (rule arc_wfI)
  fix k' a' assume "(k', a') \<in> set (mainCache (s\<lparr>arc_store := (arc_store s)(a \<mapsto> n')\<rparr>))"
  then have m: "(k', a') \<in> set (mainCache s)" by simp
  from wf_main[OF wf m] n k
  show "a' \<in> set (mainList (s\<lparr>arc_store := (arc_store s)(a \<mapsto> n')\<rparr>)) \<and>
        (\<exists>n. arc_store (s\<lparr>arc_store := (arc_store s)(a \<mapsto> n')\<rparr>) a' = Some n \<and> arc_key n = k')"
    by (cases "a' = a") auto
next
  fix k' a' assume "(k', a') \<in> set (ghostCache (s\<lparr>arc_store := (arc_store s)(a \<mapsto> n')\<rparr>))"
  then have m: "(k', a') \<in> set (ghostCache s)" by simp
  from wf_ghost[OF wf m] n k
  show "a' \<in> set (mainList (s\<lparr>arc_store := (arc_store s)(a \<mapsto> n')\<rparr>)) \<and>
        (\<exists>n. arc_store (s\<lparr>arc_store := (arc_store s)(a \<mapsto> n')\<rparr>) a' = Some n \<and> arc_key n = k')"
    by (cases "a' = a") auto
next
  fix a' assume "a' \<in> set (mainList (s\<lparr>arc_store := (arc_store s)(a \<mapsto> n')\<rparr>))"
  then have "a' \<in> set (mainList s)" by simp
  from wf_list[OF wf this]
  show "a' < arc_fresh (s\<lparr>arc_store := (arc_store s)(a \<mapsto> n')\<rparr>) \<and>
        arc_store (s\<lparr>arc_store := (arc_store s)(a \<mapsto> n')\<rparr>) a' \<noteq> None" by auto
next
  fix k a' k' assume "(k, a') \<in> set (mainCache (s\<lparr>arc_store := (arc_store s)(a \<mapsto> n')\<rparr>))"
  then have "(k, a') \<in> set (mainCache s)" by simp
  from wf_disj[OF wf this, of k']
  show "(k', a') \<notin> set (ghostCache (s\<lparr>arc_store := (arc_store s)(a \<mapsto> n')\<rparr>))" by simp
qed (simp_all add: wf_basic[OF wf])

lemma wf_to_ghost:
  assumes wf: "arc_wf s" and a: "a \<in> set (mainList s)" and n: "arc_store s a = Some n"
  shows "arc_wf (s\<lparr>ghostCache := um_assign (arc_key n) a (ghostCache s),
                   mainCache := um_erase (arc_key n) (mainCache s)\<rparr>)" (is "arc_wf ?s")
proof (rule arc_wfI)
  show "distinct (map fst (mainCache ?s))"
    using wf_basic(3)[OF wf] by (simp add: um_erase_def distinct_delete)
  show "distinct (map fst (ghostCache ?s))"
    using wf_basic(4)[OF wf] by (simp add: um_assign_def distinct_update)
next
  fix k a' assume "(k, a') \<in> set (mainCache ?s)"
  then have m: "(k, a') \<in> set (mainCache s)" by (simp add: um_erase_def um_delete_set)
  from wf_main[OF wf m]
  show "a' \<in> set (mainList ?s) \<and> (\<exists>n. arc_store ?s a' = Some n \<and> arc_key n = k)" by simp
next
  fix k a' assume "(k, a') \<in> set (ghostCache ?s)"
  then have "(k, a') = (arc_key n, a) \<or> (k, a') \<in> set (ghostCache s)"
    using wf_basic(4)[OF wf] by (auto simp: um_assign_def set_update_distinct)
  then show "a' \<in> set (mainList ?s) \<and> (\<exists>n. arc_store ?s a' = Some n \<and> arc_key n = k)"
  proof
    assume "(k, a') = (arc_key n, a)"
    with a n show ?thesis by simp
  next
    assume "(k, a') \<in> set (ghostCache s)"
    from wf_ghost[OF wf this] show ?thesis by simp
  qed
next
  fix k a' k' assume "(k, a') \<in> set (mainCache ?s)"
  then have m: "(k, a') \<in> set (mainCache s)" and kn: "k \<noteq> arc_key n"
    by (simp_all add: um_erase_def um_delete_set)
  show "(k', a') \<notin> set (ghostCache ?s)"
  proof
    assume "(k', a') \<in> set (ghostCache ?s)"
    then have "(k', a') = (arc_key n, a) \<or> (k', a') \<in> set (ghostCache s)"
      using wf_basic(4)[OF wf] by (auto simp: um_assign_def set_update_distinct)
    then show False
    proof
      assume "(k', a') = (arc_key n, a)"
      with wf_main[OF wf m] n kn show False by auto
    next
      assume "(k', a') \<in> set (ghostCache s)"
      with wf_disj[OF wf m, of k'] show False by simp
    qed
  qed
next
  fix a' assume "a' \<in> set (mainList ?s)"
  then have "a' \<in> set (mainList s)" by simp
  from wf_list[OF wf this] show "a' < arc_fresh ?s \<and> arc_store ?s a' \<noteq> None" by auto
qed (simp_all add: wf_basic[OF wf])

lemma wf_new:
  assumes wf: "arc_wf s"
  shows "arc_wf (s\<lparr>arc_store := (arc_store s)
                     (arc_fresh s \<mapsto> \<lparr>arc_key = k, arc_value = v, arc_accessCount = 1\<rparr>),
                   arc_fresh := arc_fresh s + 1,
                   mainCache := um_assign k (arc_fresh s) (mainCache s),
                   mainList := arc_fresh s # mainList s\<rparr>)" (is "arc_wf ?s")
proof (rule arc_wfI)
  have nf: "arc_fresh s \<notin> set (mainList s)" using wf_list[OF wf, of "arc_fresh s"] by auto
  show "distinct (mainList ?s)" using nf wf_basic(1)[OF wf] by simp
  show "distinct (map fst (mainCache ?s))"
    using wf_basic(3)[OF wf] by (simp add: um_assign_def distinct_update)
next
  fix a' assume "a' \<in> set (mainList ?s)"
  then have "a' = arc_fresh s \<or> a' \<in> set (mainList s)" by simp
  then show "a' < arc_fresh ?s \<and> arc_store ?s a' \<noteq> None"
  proof
    assume "a' = arc_fresh s" then show ?thesis by simp
  next
    assume "a' \<in> set (mainList s)"
    from wf_list[OF wf this] show ?thesis by auto
  qed
next
  fix k' a' assume "(k', a') \<in> set (mainCache ?s)"
  then have "(k', a') = (k, arc_fresh s) \<or> (k', a') \<in> set (mainCache s)"
    using wf_basic(3)[OF wf] by (auto simp: um_assign_def set_update_distinct)
  then show "a' \<in> set (mainList ?s) \<and> (\<exists>n. arc_store ?s a' = Some n \<and> arc_key n = k')"
  proof
    assume "(k', a') = (k, arc_fresh s)" then show ?thesis by simp
  next
    assume m: "(k', a') \<in> set (mainCache s)"
    from wf_main[OF wf m] wf_list[OF wf, of a'] show ?thesis by auto
  qed
next
  fix k' a' assume m: "(k', a') \<in> set (ghostCache ?s)"
  then have m: "(k', a') \<in> set (ghostCache s)" by simp
  from wf_ghost[OF wf m] wf_list[OF wf, of a']
  show "a' \<in> set (mainList ?s) \<and> (\<exists>n. arc_store ?s a' = Some n \<and> arc_key n = k')" by auto
next
  fix k1 a' k' assume "(k1, a') \<in> set (mainCache ?s)"
  then have c: "(k1, a') = (k, arc_fresh s) \<or> (k1, a') \<in> set (mainCache s)"
    using wf_basic(3)[OF wf] by (auto simp: um_assign_def set_update_distinct)
  show "(k', a') \<notin> set (ghostCache ?s)"
  proof
    assume "(k', a') \<in> set (ghostCache ?s)"
    then have g: "(k', a') \<in> set (ghostCache s)" by simp
    from c show False
    proof
      assume "(k1, a') = (k, arc_fresh s)"
      with wf_ghost[OF wf g] wf_list[OF wf, of a'] show False by auto
    next
      assume "(k1, a') \<in> set (mainCache s)"
      from wf_disj[OF wf this, of k'] g show False by simp
    qed
  qed
qed (simp_all add: wf_basic[OF wf])

lemma wf_unghost:
  assumes wf: "arc_wf s" and g: "(k, a) \<in> set (ghostCache s)"
  shows "arc_wf (s\<lparr>mainList := remove1 a (mainList s),
                   ghostCache := um_erase k (ghostCache s)\<rparr>)" (is "arc_wf ?s")
proof (rule arc_wfI)
  show "distinct (mainList ?s)" using wf_basic(1)[OF wf] by simp
  show "distinct (map fst (ghostCache ?s))"
    using wf_basic(4)[OF wf] by (simp add: um_erase_def distinct_delete)
next
  fix a' assume "a' \<in> set (mainList ?s)"
  then have "a' \<in> set (mainList s)" using wf_basic(1)[OF wf] by simp
  from wf_list[OF wf this] show "a' < arc_fresh ?s \<and> arc_store ?s a' \<noteq> None" by auto
next
  fix k' a' assume "(k', a') \<in> set (mainCache ?s)"
  then have m: "(k', a') \<in> set (mainCache s)" by simp
  from wf_disj[OF wf m, of k] g have "a' \<noteq> a" by auto
  with wf_main[OF wf m] wf_basic(1)[OF wf]
  show "a' \<in> set (mainList ?s) \<and> (\<exists>n. arc_store ?s a' = Some n \<and> arc_key n = k')" by simp
next
  fix k' a' assume "(k', a') \<in> set (ghostCache ?s)"
  then have m: "(k', a') \<in> set (ghostCache s)" and kk: "k' \<noteq> k"
    by (simp_all add: um_erase_def um_delete_set)
  from wf_ghost[OF wf m] wf_ghost[OF wf g] kk have "a' \<noteq> a" by auto
  with wf_ghost[OF wf m] wf_basic(1)[OF wf]
  show "a' \<in> set (mainList ?s) \<and> (\<exists>n. arc_store ?s a' = Some n \<and> arc_key n = k')" by simp
next
  fix k1 a' k' assume "(k1, a') \<in> set (mainCache ?s)"
  then have m: "(k1, a') \<in> set (mainCache s)" by simp
  from wf_disj[OF wf m, of k']
  show "(k', a') \<notin> set (ghostCache ?s)" by (simp add: um_erase_def um_delete_set)
qed (simp_all add: wf_basic[OF wf])

lemma arc_evict_ok:
  assumes wf: "arc_wf s"
  shows "\<exists>s'. arc_evictLeastRecent s = Some s' \<and> arc_wf s' \<and>
           arc_capacity s' = arc_capacity s \<and> ghostCapacity s' = ghostCapacity s \<and>
           transformThreshold s' = transformThreshold s \<and> arc_fresh s' = arc_fresh s"
proof (cases "mainList s = []")
  case True
  then show ?thesis using wf by (simp add: arc_evictLeastRecent_def)
next
  case False
  define a where "a = last (mainList s)"
  have am: "a \<in> set (mainList s)" using False by (simp add: a_def)
  from wf_list[OF wf am] obtain n where n: "arc_store s a = Some n" by auto
  let ?n = "n\<lparr>arc_accessCount := 1\<rparr>"
  let ?s1 = "s\<lparr>mainList := a # butlast (mainList s)\<rparr>"
  let ?s2 = "?s1\<lparr>arc_store := (arc_store ?s1)(a \<mapsto> ?n)\<rparr>"
  let ?s3 = "?s2\<lparr>ghostCache := um_assign (arc_key ?n) a (ghostCache ?s2),
                  mainCache := um_erase (arc_key ?n) (mainCache ?s2)\<rparr>"
  have r: "remove1 a (mainList s) = butlast (mainList s)"
    unfolding a_def using wf_basic(1)[OF wf] False by (rule remove1_last)
  have e: "arc_evictLeastRecent s = Some ?s3"
    using False n am wf_basic(2)[OF wf] r
    by (simp add: arc_evictLeastRecent_def removeFromMain_def arc_unlink_def
          removeOldestGhost_def addToGhost_def Let_def a_def[symmetric])
  have d: "distinct (a # butlast (mainList s))"
    using rotate_last_distinct[OF wf_basic(1)[OF wf] False] by (simp add: a_def)
  have st: "set (a # butlast (mainList s)) = set (mainList s)"
    using rotate_last_set[OF False] by (simp add: a_def)
  have w1: "arc_wf ?s1" using wf d st by (rule wf_relist)
  have w2: "arc_wf ?s2" by (rule wf_restore[OF w1, of a n]) (simp_all add: n)
  have "arc_wf ?s3" by (rule wf_to_ghost[OF w2]) simp_all
  with e show ?thesis by simp
qed

lemma move_front_ok:
  assumes wf: "arc_wf s" and a: "a \<in> set (mainList s)"
  shows "\<exists>s'. moveToFront a s = Some s' \<and> arc_wf s' \<and> arc_store s' = arc_store s \<and>
           arc_capacity s' = arc_capacity s \<and> ghostCapacity s' = ghostCapacity s \<and>
           transformThreshold s' = transformThreshold s \<and> a \<in> set (mainList s')"
proof -
  have e: "moveToFront a s = Some (s\<lparr>mainList := a # remove1 a (mainList s)\<rparr>)"
    using a by (simp add: moveToFront_def arc_unlink_def addToFront_def)
  have "arc_wf (s\<lparr>mainList := a # remove1 a (mainList s)\<rparr>)"
    using wf
  proof (rule wf_relist)
    show "distinct (a # remove1 a (mainList s))" using wf_basic(1)[OF wf] by simp
    show "set (a # remove1 a (mainList s)) = set (mainList s)"
      using a wf_basic(1)[OF wf] by auto
  qed
  with e show ?thesis by simp
qed

lemma arc_put_ok:
  assumes wf: "arc_wf s"
  shows "\<exists>b s'. arc_put k v s = Some (b, s') \<and> arc_wf s' \<and>
           arc_capacity s' = arc_capacity s \<and> ghostCapacity s' = ghostCapacity s \<and>
           transformThreshold s' = transformThreshold s"
proof (cases "arc_capacity s = 0")
  case True
  then show ?thesis using wf by (auto simp: arc_put_def)
next
  case c: False
  show ?thesis
  proof (cases "um_find k (mainCache s)")
    case (Some a)
    then have m: "(k, a) \<in> set (mainCache s)"
      using wf_basic(3)[OF wf] by (simp add: um_find_Some_iff)
    from wf_main[OF wf m] obtain n where a: "a \<in> set (mainList s)"
      and n: "arc_store s a = Some n" by auto
    let ?s1 = "s\<lparr>arc_store := (arc_store s)(a \<mapsto> n\<lparr>arc_value := v\<rparr>)\<rparr>"
    have w1: "arc_wf ?s1" by (rule wf_restore[OF wf n]) simp
    have a1: "a \<in> set (mainList ?s1)" using a by simp
    from move_front_ok[OF w1 a1] obtain s' where
      "moveToFront a ?s1 = Some s'" "arc_wf s'" "arc_capacity s' = arc_capacity s"
      "ghostCapacity s' = ghostCapacity s" "transformThreshold s' = transformThreshold s"
      by auto
    then show ?thesis using c Some n by (auto simp: arc_put_def arc_updateExistingNode_def)
  next
    case None
    obtain s1 where s1: "(if arc_capacity s \<le> um_size (mainCache s) then arc_evictLeastRecent s
                          else Some s) = Some s1" "arc_wf s1" "arc_capacity s1 = arc_capacity s"
      "ghostCapacity s1 = ghostCapacity s" "transformThreshold s1 = transformThreshold s"
      using arc_evict_ok[OF wf] wf by (cases "arc_capacity s \<le> um_size (mainCache s)") auto
    from wf_new[OF s1(2), of k v] s1 show ?thesis
      using c None by (auto simp: arc_put_def arc_addNewNode_def Let_def addToFront_def)
  qed
qed

lemma arc_get_ok:
  assumes wf: "arc_wf s"
  shows "\<exists>r st s'. arc_get k s = Some (r, st, s') \<and> arc_wf s' \<and>
           arc_capacity s' = arc_capacity s \<and> ghostCapacity s' = ghostCapacity s \<and>
           transformThreshold s' = transformThreshold s"
proof (cases "um_find k (mainCache s)")
  case None
  then show ?thesis using wf by (auto simp: arc_get_def)
next
  case (Some a)
  then have m: "(k, a) \<in> set (mainCache s)"
    using wf_basic(3)[OF wf] by (simp add: um_find_Some_iff)
  from wf_main[OF wf m] obtain n where a: "a \<in> set (mainList s)"
    and n: "arc_store s a = Some n" by auto
  from move_front_ok[OF wf a] obtain s1 where
    s1: "moveToFront a s = Some s1" "arc_wf s1" "arc_store s1 = arc_store s"
      "arc_capacity s1 = arc_capacity s" "ghostCapacity s1 = ghostCapacity s"
      "transformThreshold s1 = transformThreshold s" by auto
  let ?n = "n\<lparr>arc_accessCount := (arc_accessCount n + 1) mod 2 ^ 64\<rparr>"
  have n1: "arc_store s1 a = Some n" using s1(3) n by simp
  have "arc_wf (s1\<lparr>arc_store := (arc_store s1)(a \<mapsto> ?n)\<rparr>)"
    by (rule wf_restore[OF s1(2) n1]) simp
  then show ?thesis
    using Some s1 n1 by (auto simp: arc_get_def updateNodeAccess_def Let_def)
qed

lemma checkGhost_ok:
  assumes wf: "arc_wf s"
  shows "\<exists>s'. checkGhost k s = Some (um_find k (ghostCache s) \<noteq> None, s') \<and> arc_wf s' \<and>
           arc_capacity s' = arc_capacity s \<and> ghostCapacity s' = ghostCapacity s \<and>
           transformThreshold s' = transformThreshold s"
proof (cases "um_find k (ghostCache s)")
  case None
  then show ?thesis using wf by (simp add: checkGhost_def)
next
  case (Some a)
  then have g: "(k, a) \<in> set (ghostCache s)"
    using wf_basic(4)[OF wf] by (simp add: um_find_Some_iff)
  from wf_ghost[OF wf g] have a: "a \<in> set (mainList s)" by simp
  from wf_unghost[OF wf g] show ?thesis
    using Some a by (simp add: checkGhost_def removeFromGhost_def arc_unlink_def)
qed

lemma decreaseCapacity_ok:
  assumes wf: "arc_wf s"
  shows "\<exists>s'. decreaseCapacity s = Some (0 < arc_capacity s, s') \<and> arc_wf s' \<and>
           arc_capacity s' = arc_capacity s - 1 \<and> ghostCapacity s' = ghostCapacity s \<and>
           transformThreshold s' = transformThreshold s"
proof (cases "arc_capacity s = 0")
  case True
  then show ?thesis using wf by (simp add: decreaseCapacity_def)
next
  case False
  obtain s1 where s1: "(if um_size (mainCache s) = arc_capacity s then arc_evictLeastRecent s
                        else Some s) = Some s1" "arc_wf s1" "arc_capacity s1 = arc_capacity s"
    "ghostCapacity s1 = ghostCapacity s" "transformThreshold s1 = transformThreshold s"
    using arc_evict_ok[OF wf] wf by (cases "um_size (mainCache s) = arc_capacity s") auto
  have "arc_wf (s1\<lparr>arc_capacity := arc_capacity s1 - 1\<rparr>)"
    using s1(2) by (simp add: arc_wf_def)
  with s1 False show ?thesis by (simp add: decreaseCapacity_def)
qed

lemma increaseCapacity_wf: "arc_wf s \<Longrightarrow> arc_wf (increaseCapacity s)"
  by (simp add: arc_wf_def increaseCapacity_def)

lemma t2_evict_capacity [simp]: "t2_capacity (t2_evict s) = t2_capacity s"
  by (simp add: t2_evict_def Let_def)

lemma t2_put_capacity [simp]: "t2_capacity (snd (t2_put k v s)) = t2_capacity s"
  by (simp add: t2_put_def Let_def split: option.splits)

lemma t2_get_capacity [simp]: "t2_capacity (snd (t2_get k s)) = t2_capacity s"
  by (simp add: t2_get_def split: option.splits)

lemma t2_checkGhost_eq:
  "t2_checkGhost k s = (k \<in> set (t2_ghost s), snd (t2_checkGhost k s)) \<and>
   t2_capacity (snd (t2_checkGhost k s)) = t2_capacity s"
  by (simp add: t2_checkGhost_def)

lemma t2_decreaseCapacity_eq:
  "t2_decreaseCapacity s = (0 < t2_capacity s, snd (t2_decreaseCapacity s)) \<and>
   t2_capacity (snd (t2_decreaseCapacity s)) = t2_capacity s - 1"
  by (simp add: t2_decreaseCapacity_def Let_def)

lemma rebalanced_sum: "fst (rebalanced k c) + snd (rebalanced k c) = cap_sum c"
  by (simp add: rebalanced_def cap_sum_def Let_def)

lemma checkGhostCaches_ok:
  assumes wf: "arc_wf (lruPart c)" and b: "cap_sum c < 2 ^ 64"
  shows "\<exists>c'. checkGhostCaches k c =
                 Some (um_find k (ghostCache (lruPart c)) \<noteq> None \<or> k \<in> set (t2_ghost (lfuPart c)),
                       c') \<and>
           arc_wf (lruPart c') \<and>
           (arc_capacity (lruPart c'), t2_capacity (lfuPart c')) = rebalanced k c"
proof -
  from checkGhost_ok[OF wf, of k] obtain l1 where
    l1: "checkGhost k (lruPart c) = Some (um_find k (ghostCache (lruPart c)) \<noteq> None, l1)"
      "arc_wf l1" "arc_capacity l1 = arc_capacity (lruPart c)" by auto
  show ?thesis
  proof (cases "um_find k (ghostCache (lruPart c)) \<noteq> None")
    case True
    obtain f1 where f1: "t2_decreaseCapacity (lfuPart c) = (0 < t2_capacity (lfuPart c), f1)"
      "t2_capacity f1 = t2_capacity (lfuPart c) - 1"
      using t2_decreaseCapacity_eq[of "lfuPart c"] by blast
    show ?thesis
    proof (cases "t2_capacity (lfuPart c) = 0")
      case z: True
      then show ?thesis using True l1 f1
        by (simp add: checkGhostCaches_def rebalanced_def)
    next
      case nz: False
      with b have "arc_capacity (lruPart c) + 1 < 2 ^ 64" by (simp add: cap_sum_def)
      then have "(arc_capacity l1 + 1) mod 2 ^ 64 = arc_capacity (lruPart c) + 1"
        using l1(3) by simp
      then show ?thesis using True l1 f1 nz increaseCapacity_wf[OF l1(2)]
        by (simp add: checkGhostCaches_def rebalanced_def increaseCapacity_def)
    qed
  next
    case False
    obtain f1 where f1: "t2_checkGhost k (lfuPart c) = (k \<in> set (t2_ghost (lfuPart c)), f1)"
      "t2_capacity f1 = t2_capacity (lfuPart c)"
      using t2_checkGhost_eq[of k "lfuPart c"] by blast
    show ?thesis
    proof (cases "k \<in> set (t2_ghost (lfuPart c))")
      case g: True
      from decreaseCapacity_ok[OF l1(2)] obtain l2 where
        l2: "decreaseCapacity l1 = Some (0 < arc_capacity l1, l2)" "arc_wf l2"
          "arc_capacity l2 = arc_capacity l1 - 1" by auto
      then show ?thesis using False g l1 f1
        by (simp add: checkGhostCaches_def rebalanced_def t2_increaseCapacity_def)
    next
      case g: False
      then show ?thesis using False l1 f1
        by (simp add: checkGhostCaches_def rebalanced_def)
    qed
  qed
qed

lemma checkGhostCaches_sum:
  assumes wf: "arc_wf (lruPart c)" and b: "cap_sum c < 2 ^ 64"
  shows "\<exists>h c'. checkGhostCaches k c = Some (h, c') \<and> arc_wf (lruPart c') \<and>
           cap_sum c' = cap_sum c"
proof -
  from checkGhostCaches_ok[OF wf b, of k] obtain h c' where
    c': "checkGhostCaches k c = Some (h, c')" "arc_wf (lruPart c')"
      "(arc_capacity (lruPart c'), t2_capacity (lfuPart c')) = rebalanced k c" by blast
  from c'(3) rebalanced_sum[of k c] have "cap_sum c' = cap_sum c"
    by (simp add: cap_sum_def prod_eq_iff)
  with c' show ?thesis by blast
qed

lemma cache_put_ok:
  assumes wf: "arc_wf (lruPart c)" and b: "cap_sum c < 2 ^ 64"
  shows "\<exists>c'. cache_put k v c = Some c' \<and> arc_wf (lruPart c') \<and> cap_sum c' = cap_sum c"
proof -
  from checkGhostCaches_sum[OF wf b, of k] obtain h c1 where
    c1: "checkGhostCaches k c = Some (h, c1)" "arc_wf (lruPart c1)" "cap_sum c1 = cap_sum c"
    by blast
  from arc_put_ok[OF c1(2), of k v] obtain ok l where
    l: "arc_put k v (lruPart c1) = Some (ok, l)" "arc_wf l"
      "arc_capacity l = arc_capacity (lruPart c1)" by blast
  with c1 show ?thesis by (simp add: cache_put_def cap_sum_def)
qed

lemma cache_get_ok:
  assumes wf: "arc_wf (lruPart c)" and b: "cap_sum c < 2 ^ 64"
  shows "\<exists>r c'. cache_get k c = Some (r, c') \<and> arc_wf (lruPart c') \<and> cap_sum c' = cap_sum c"
proof -
  from checkGhostCaches_sum[OF wf b, of k] obtain h c1 where
    c1: "checkGhostCaches k c = Some (h, c1)" "arc_wf (lruPart c1)" "cap_sum c1 = cap_sum c"
    by blast
  from arc_get_ok[OF c1(2), of k] obtain r st l where
    l: "arc_get k (lruPart c1) = Some (r, st, l)" "arc_wf l"
      "arc_capacity l = arc_capacity (lruPart c1)" by blast
  show ?thesis
  proof (cases r)
    case None
    obtain r2 f where f: "t2_get k (lfuPart c1) = (r2, f)" by (cases "t2_get k (lfuPart c1)")
    then have "t2_capacity f = t2_capacity (lfuPart c1)"
      using t2_get_capacity[of k "lfuPart c1"] by simp
    with c1 l None f show ?thesis by (simp add: cache_get_def cap_sum_def)
  next
    case (Some v)
    with c1 l show ?thesis by (simp add: cache_get_def cap_sum_def)
  qed
qed

lemma arc_run_ok:
  assumes "arc_wf (lruPart c)" "cap_sum c < 2 ^ 64"
  shows "\<exists>c'. arc_run ops c = Some c' \<and> arc_wf (lruPart c') \<and> cap_sum c' = cap_sum c"
  using assms
proof (induction ops arbitrary: c)
  case Nil
  then show ?case by simp
next
  case (Cons op ops)
  show ?case
  proof (cases op)
    case (Put k v)
    from cache_put_ok[OF Cons.prems, of k v] obtain c1 where
      c1: "cache_put k v c = Some c1" "arc_wf (lruPart c1)" "cap_sum c1 = cap_sum c" by blast
    from Cons.IH[OF c1(2)] c1(3) Cons.prems(2) obtain c' where
      "arc_run ops c1 = Some c'" "arc_wf (lruPart c')" "cap_sum c' = cap_sum c1" by auto
    with c1 Put show ?thesis by simp
  next
    case (Get k)
    from cache_get_ok[OF Cons.prems, of k] obtain r c1 where
      c1: "cache_get k c = Some (r, c1)" "arc_wf (lruPart c1)" "cap_sum c1 = cap_sum c" by blast
    from Cons.IH[OF c1(2)] c1(3) Cons.prems(2) obtain c' where
      "arc_run ops c1 = Some c'" "arc_wf (lruPart c')" "cap_sum c' = cap_sum c1" by auto
    with c1 Get show ?thesis by simp
  qed
qed

lemma ARCCache_new_wf: "arc_wf (lruPart (ARCCache_new C T g))"
  by (simp add: ARCCache_new_def ARCLRUPart_new_def arc_wf_def)

lemma ARCCache_new_sum: "cap_sum (ARCCache_new C T g) = 2 * C"
  by (simp add: ARCCache_new_def ARCLRUPart_new_def ARCLFUPart_new_def cap_sum_def)

text \<open>
  Claim C5 (the capacities of the two ARC halves add up to the capacity of the cache).
  The constructor of \<^verbatim>\<open>ARCCache\<close> hands the whole capacity \<open>C\<close> to both halves, so right
  after construction the two capacities add up to \<open>2C\<close>. For \<open>2C < 2^64\<close> every workload of
  \<open>put\<close> and \<open>get\<close> returns and leaves the sum at \<open>2C\<close>, and a ghost check in the state
  reached returns and keeps the sum: a hit in the ghost map of the LRU half moves one unit of
  capacity from the LFU half to the LRU half unless the LFU half is at 0, a hit in the ghost
  list of the LFU half moves one unit the other way unless the LRU half is at 0, and the
  capacities stay as they are otherwise. The LFU half is the one modelled from the spec.
\<close>

theorem arc_capacity_sum:
  assumes "2 * C < 2 ^ 64"
  shows "cap_sum (ARCCache_new C T g) = 2 * C \<and>
         (\<exists>c. arc_run ops (ARCCache_new C T g) = Some c \<and> cap_sum c = 2 * C \<and>
            (\<exists>h c'. checkGhostCaches k c = Some (h, c') \<and> cap_sum c' = 2 * C \<and>
               (arc_capacity (lruPart c'), t2_capacity (lfuPart c')) = rebalanced k c))"
proof -
  have s0: "cap_sum (ARCCache_new C T g) < 2 ^ 64" using assms by (simp add: ARCCache_new_sum)
  from arc_run_ok[OF ARCCache_new_wf s0, of ops] obtain c where
    c: "arc_run ops (ARCCache_new C T g) = Some c" "arc_wf (lruPart c)" "cap_sum c = 2 * C"
    by (auto simp: ARCCache_new_sum)
  from c(3) assms have b: "cap_sum c < 2 ^ 64" by simp
  from checkGhostCaches_ok[OF c(2) b, of k] obtain h c' where
    c': "checkGhostCaches k c = Some (h, c')"
      "(arc_capacity (lruPart c'), t2_capacity (lfuPart c')) = rebalanced k c" by blast
  from c'(2) rebalanced_sum[of k c] c(3) have "cap_sum c' = 2 * C"
    by (simp add: cap_sum_def prod_eq_iff)
  with c c' show ?thesis by (auto simp: ARCCache_new_sum)
qed

lemmas arc_eval = arc_put_def arc_get_def arc_addNewNode_def arc_updateExistingNode_def
  updateNodeAccess_def arc_evictLeastRecent_def removeOldestGhost_def addToGhost_def
  addToFront_def moveToFront_def removeFromMain_def removeFromGhost_def arc_unlink_def
  checkGhost_def increaseCapacity_def decreaseCapacity_def ARCLRUPart_new_def
  um_find_def um_assign_def um_erase_def um_size_def Let_def

lemmas cache_eval = cache_put_def cache_get_def checkGhostCaches_def ARCCache_new_def
  ARCLFUPart_new_def t2_put_def t2_get_def t2_evict_def t2_checkGhost_def
  t2_decreaseCapacity_def t2_increaseCapacity_def cap_sum_def

lemma ARCLRUPart_new_wf: "arc_wf (ARCLRUPart_new C g T)"
  by (simp add: ARCLRUPart_new_def arc_wf_def)

lemma part_run_wf:
  assumes "arc_wf s"
  shows "\<exists>s'. part_run ops s = Some s' \<and> arc_wf s' \<and> arc_capacity s' = arc_capacity s"
  using assms
proof (induction ops arbitrary: s)
  case Nil
  then show ?case by simp
next
  case (Cons op ops)
  show ?case
  proof (cases op)
    case (Put k v)
    from arc_put_ok[OF Cons.prems, of k v] obtain b s1 where
      s1: "arc_put k v s = Some (b, s1)" "arc_wf s1" "arc_capacity s1 = arc_capacity s" by blast
    from Cons.IH[OF s1(2)] s1 Put show ?thesis by auto
  next
    case (Get k)
    from arc_get_ok[OF Cons.prems, of k] obtain r st s1 where
      s1: "arc_get k s = Some (r, st, s1)" "arc_wf s1" "arc_capacity s1 = arc_capacity s"
      by blast
    from Cons.IH[OF s1(2)] s1 Get show ?thesis by auto
  qed
qed

lemma part_run_ghost_list_empty:
  "\<exists>s. part_run ops (ARCLRUPart_new C g T) = Some s \<and> ghostList s = []"
  using part_run_wf[OF ARCLRUPart_new_wf, of ops C g T] by (auto simp: arc_wf_def)

text \<open>
  Claim C6 (an entry evicted from the LRU half is unlinked from the real list and linked in
  the ghost list). \<^verbatim>\<open>addToGhost\<close> links the evicted node behind \<^verbatim>\<open>mainHead_\<close>, under a
  comment that says ghost list. On an LRU half of capacity 1, whatever the ghost capacity,
  \<open>put(A, 1); put(B, 2)\<close> leaves the node of \<open>A\<close> linked in the main list behind the node of
  \<open>B\<close> and the ghost list empty, with \<open>A\<close> filed in \<^verbatim>\<open>ghostCache_\<close>. A third
  \<open>put(C, 3)\<close> then finds the node of \<open>A\<close> at the least recent end again, evicts no real
  entry, and the main map holds \<open>B\<close> and \<open>C\<close> at capacity 1.
\<close>

theorem arc_evicted_node_relinked_in_main:
  "map_option (\<lambda>s. (mainList s, ghostList s, mainCache s, ghostCache s))
     (part_run [Put ''A'' (1::int), Put ''B'' 2] (ARCLRUPart_new 1 g 2))
     = Some ([1, 0], [], [(''B'', 1)], [(''A'', 0)]) \<and>
   map_option (\<lambda>s. (mainList s, ghostList s, mainCache s, ghostCache s, arc_capacity s))
     (part_run [Put ''A'' (1::int), Put ''B'' 2, Put ''C'' 3] (ARCLRUPart_new 1 g 2))
     = Some ([2, 0, 1], [], [(''B'', 1), (''C'', 2)], [(''A'', 0)], 1)"
  by (simp add: arc_eval)

theorem arc_capacity_sum_witness:
  "(2::nat) * 4 < 2 ^ 64 \<and>
   cap_sum (ARCCache_new 4 2 4 :: (string, int) ARCCache) = 2 * 4 \<and>
   (\<exists>c. arc_run [Put ''A'' (1::int), Put ''B'' 2, Put ''C'' 3, Put ''D'' 4, Put ''E'' 5,
                  Put ''A'' 6] (ARCCache_new 4 2 4) = Some c \<and> cap_sum c = 2 * 4)"
  using arc_capacity_sum[of 4 2 4
      "[Put ''A'' (1::int), Put ''B'' 2, Put ''C'' 3, Put ''D'' 4, Put ''E'' 5, Put ''A'' 6]"
      "''A''"]
  by auto

theorem arc_capacity_sum_counterexample:
  "arc_capacity (lruPart (ARCCache_new 4 2 4 :: (string, int) ARCCache)) = 4 \<and>
   cap_sum (ARCCache_new 4 2 4 :: (string, int) ARCCache) = 8 \<and> (8::nat) \<noteq> 4"
  by (simp add: cache_eval ARCLRUPart_new_def)

lemma arc_scenario_S4:
  "map_option (\<lambda>c. (arc_capacity (lruPart c), t2_capacity (lfuPart c)))
     (arc_run [Put ''A'' (1::int), Put ''B'' 2, Put ''C'' 3, Put ''D'' 4, Put ''E'' 5,
               Put ''A'' 6] (ARCCache_new 4 2 4)) = Some (5, 3)"
  by (simp add: cache_eval arc_eval)


end
